theory Spec2Isabelle
  imports Main "HOL-Library.Log_Nat"
begin

section \<open>Data model of x-window-selector.c\<close>

text \<open>
  X resource identifiers (\<^verbatim>\<open>xcb_window_t\<close>, \<^verbatim>\<open>xcb_keysym_t\<close>) are 32-bit numbers that
  the program only stores, compares and prints; no arithmetic is done on them, so they
  are natural numbers here.
\<close>

type_synonym xcb_window_t = nat
type_synonym xcb_keysym_t = nat

record keysyms_lookup_t =
  character :: char
  keysym :: xcb_keysym_t

text \<open>
  \<^verbatim>\<open>window_setup_t\<close>: a nullable pointer is an option, the array \<^verbatim>\<open>children\<close> with its
  \<^verbatim>\<open>children_size\<close> is a list (\<^verbatim>\<open>children == NULL\<close> is the empty list). The graphics
  contexts \<^verbatim>\<open>overlay_font_gc\<close> and \<^verbatim>\<open>overlay_bg_gc\<close> and the rectangle
  \<^verbatim>\<open>overlay_rect\<close> belong to the overlay window: they are only created for a node that
  has an overlay window and are freed with it, and they are not modelled apart from it.
\<close>

datatype window_setup_t =
  Window_setup
    (overlay_window: "xcb_window_t option")
    (window: "xcb_window_t option")
    (wcharacter: char)
    (children: "window_setup_t list")

text \<open>
  The connection to the X server, seen from the program: the identifiers handed out by
  \<^verbatim>\<open>xcb_generate_id\<close> (a counter, so every identifier is fresh) and the requests sent that
  create or destroy a window, in the order they were sent. The server is taken to answer
  every request: the calls to \<^verbatim>\<open>xcw_die\<close> on a failed reply are not modelled.
\<close>

datatype xcb_request = Create_window xcb_window_t | Destroy_window xcb_window_t

record xcb_connection_t =
  next_id :: nat
  requests :: "xcb_request list"

record xcw_state_t =
  xcon :: xcb_connection_t
  ksl :: "keysyms_lookup_t list"
  wsetups :: "window_setup_t list"

text \<open>
  How a step of the program ends: it returns, or the process exits through
  \<^verbatim>\<open>choose_window\<close> (which prints the window, then \<^verbatim>\<open>xcw_exit_match\<close>) or through
  \<^verbatim>\<open>xcw_exit_no_match\<close>.
\<close>

datatype status = Running | Exit_match xcb_window_t | Exit_no_match

text \<open>
  \<^verbatim>\<open>Unknown_character\<close> and \<^verbatim>\<open>Too_few_characters\<close> are the two calls of \<^verbatim>\<open>argp_error\<close>
  in \<^verbatim>\<open>parse_arg_characters\<close>, which end the process. The others mark what C leaves
  undefined: a read of \<^verbatim>\<open>ksl[i]\<close> or of \<^verbatim>\<open>windows\<close> past the end of the array, and a
  division by \<^verbatim>\<open>ksl_size = 0\<close>.
\<close>

datatype error =
  Unknown_character char
  | Too_few_characters
  | Ksl_out_of_bounds
  | Windows_out_of_bounds
  | Division_by_zero

section \<open>Key lookup and the CHARACTERS argument\<close>

definition ALL_KEYSYMS_LOOKUP :: "keysyms_lookup_t list" where
  "ALL_KEYSYMS_LOOKUP =
     map (\<lambda>c. \<lparr>character = c, keysym = of_char c\<rparr>) ''0123456789abcdefghijklmnopqrstuvwxyz''"

fun keysyms_lookup_find_char :: "keysyms_lookup_t list \<Rightarrow> char \<Rightarrow> keysyms_lookup_t option" where
  "keysyms_lookup_find_char [] c = None"
| "keysyms_lookup_find_char (k # rest) c =
     (if character k = c then Some k else keysyms_lookup_find_char rest c)"

fun keysyms_lookup_find_keysym ::
  "keysyms_lookup_t list \<Rightarrow> xcb_keysym_t \<Rightarrow> keysyms_lookup_t option" where
  "keysyms_lookup_find_keysym [] ksym = None"
| "keysyms_lookup_find_keysym (k # rest) ksym =
     (if keysym k = ksym then Some k else keysyms_lookup_find_keysym rest ksym)"

text \<open>
  The loop of \<^verbatim>\<open>parse_arg_characters\<close>; \<open>acc\<close> is \<^verbatim>\<open>input->ksl\<close> up to \<^verbatim>\<open>size\<close>. An unknown
  character ends the process at once; a character already in the lookup is skipped.
\<close>

fun parse_arg_characters_loop ::
  "string \<Rightarrow> keysyms_lookup_t list \<Rightarrow> error + keysyms_lookup_t list" where
  "parse_arg_characters_loop [] acc = Inr acc"
| "parse_arg_characters_loop (c # rest) acc =
     (case keysyms_lookup_find_char ALL_KEYSYMS_LOOKUP c of
        None \<Rightarrow> Inl (Unknown_character c)
      | Some ksl_item \<Rightarrow>
          (if keysyms_lookup_find_char acc c = None
           then parse_arg_characters_loop rest (acc @ [ksl_item])
           else parse_arg_characters_loop rest acc))"

definition parse_arg_characters :: "string \<Rightarrow> error + keysyms_lookup_t list" where
  "parse_arg_characters char_pool =
     (case parse_arg_characters_loop char_pool [] of
        Inl e \<Rightarrow> Inl e
      | Inr acc \<Rightarrow> if length acc < 2 then Inl Too_few_characters else Inr acc)"

section \<open>Building the tracking structure\<close>

definition overlay_create :: "xcb_connection_t \<Rightarrow> xcb_window_t \<times> xcb_connection_t" where
  "overlay_create xc =
     (next_id xc,
      xc\<lparr>next_id := Suc (next_id xc),
         requests := requests xc @ [Create_window (next_id xc)]\<rparr>)"

definition initialise_window_setup ::
  "xcb_connection_t \<Rightarrow> xcb_window_t \<Rightarrow> char \<Rightarrow> window_setup_t \<times> xcb_connection_t" where
  "initialise_window_setup xc win c =
     (case overlay_create xc of
        (ov, xc') \<Rightarrow> (Window_setup (Some ov) (Some win) c [], xc'))"

text \<open>
  The loop of the branch \<^verbatim>\<open>remain_depth == 0\<close>: one bottom-level structure per window,
  the \<open>i\<close>-th with the character \<^verbatim>\<open>ksl[i].character\<close>.
\<close>

fun leaf_loop ::
  "keysyms_lookup_t list \<Rightarrow> nat \<Rightarrow> xcb_window_t list \<Rightarrow> xcb_connection_t \<Rightarrow>
     error + (window_setup_t list \<times> xcb_connection_t)" where
  "leaf_loop ks i [] xc = Inr ([], xc)"
| "leaf_loop ks i (w # rest) xc =
     (if i < length ks
      then (case initialise_window_setup xc w (character (ks ! i)) of
              (s, xc1) \<Rightarrow>
                (case leaf_loop ks (Suc i) rest xc1 of
                   Inl e \<Rightarrow> Inl e
                 | Inr (ss, xc2) \<Rightarrow> Inr (s # ss, xc2)))
      else Inl Ksl_out_of_bounds)"

text \<open>
  The loop of the \<^verbatim>\<open>else\<close> branch of \<^verbatim>\<open>_initialise_window_tracking\<close>. Its body calls
  \<^verbatim>\<open>_initialise_window_tracking\<close> with \<^verbatim>\<open>remain_depth - 1\<close>: that call is the argument
  \<open>rec\<close>. The loop carries \<^verbatim>\<open>remain_windows\<close> as the list of the windows not yet used.
  The C code reads \<^verbatim>\<open>ksl[i]\<close> and \<^verbatim>\<open>remain_windows\<close> unchecked; the first two tests of
  the body are the conditions under which those reads stay inside the arrays.
\<close>

function group_loop ::
  "(xcb_window_t list \<Rightarrow> xcb_connection_t \<Rightarrow> error + (window_setup_t list \<times> xcb_connection_t)) \<Rightarrow>
   keysyms_lookup_t list \<Rightarrow> nat \<Rightarrow> nat \<Rightarrow> nat \<Rightarrow> nat \<Rightarrow> xcb_window_t list \<Rightarrow>
     xcb_connection_t \<Rightarrow> error + (window_setup_t list \<times> xcb_connection_t)" where
  "group_loop rec ks p r n i remain_windows xc =
     (if i < n then
        let children_windows_size = (if i < r then p + 1 else p) in
        if length ks \<le> i then Inl Ksl_out_of_bounds
        else if length remain_windows < children_windows_size then Inl Windows_out_of_bounds
        else
          (case (if children_windows_size = 1
                 then Inr (initialise_window_setup xc (hd remain_windows) (character (ks ! i)))
                 else (case rec (take children_windows_size remain_windows) xc of
                         Inl e \<Rightarrow> Inl e
                       | Inr (chs, xc1) \<Rightarrow>
                           Inr (Window_setup None None (character (ks ! i)) chs, xc1))) of
             Inl e \<Rightarrow> Inl e
           | Inr (s, xc1) \<Rightarrow>
               (case group_loop rec ks p r n (Suc i)
                       (drop children_windows_size remain_windows) xc1 of
                  Inl e \<Rightarrow> Inl e
                | Inr (ss, xc2) \<Rightarrow> Inr (s # ss, xc2)))
      else Inr ([], xc))"
  by pat_completeness auto
termination
  by (relation "measure (\<lambda>(rec, ks, p, r, n, i, rw, xc). n - i)") auto

declare group_loop.simps [simp del]

text \<open>
  \<^verbatim>\<open>_initialise_window_tracking\<close> (a name cannot begin with an underscore here, hence
  the prime): \<^verbatim>\<open>remain_depth\<close>, the windows, and the array built with the connection
  after it. The division by \<^verbatim>\<open>ksl_size\<close> is undefined in C when there is no character.
\<close>

fun initialise_window_tracking' ::
  "keysyms_lookup_t list \<Rightarrow> nat \<Rightarrow> xcb_window_t list \<Rightarrow> xcb_connection_t \<Rightarrow>
     error + (window_setup_t list \<times> xcb_connection_t)" where
  "initialise_window_tracking' ks 0 windows xc = leaf_loop ks 0 windows xc"
| "initialise_window_tracking' ks (Suc d) windows xc =
     (if length ks = 0 then Inl Division_by_zero
      else
        let p = length windows div length ks;
            r = length windows mod length ks;
            n = (if p > 0 then length ks else r)
        in group_loop (initialise_window_tracking' ks d) ks p r n 0 windows xc)"

text \<open>
  \<^verbatim>\<open>initialise_window_tracking\<close> passes as depth the C expression
  \<^verbatim>\<open>(int)(log(max(windows_size - 1, 1)) / log(state->input->ksl_size))\<close>, which the C
  library computes in double precision. The library is not part of the repository: the
  truncated quotient is the parameter \<open>log_quotient\<close>, called with the two integers.
\<close>

definition initialise_window_tracking ::
  "(nat \<Rightarrow> nat \<Rightarrow> nat) \<Rightarrow> xcw_state_t \<Rightarrow> xcb_window_t list \<Rightarrow> error + xcw_state_t" where
  "initialise_window_tracking log_quotient state windows =
     (case initialise_window_tracking' (ksl state)
             (log_quotient (max (length windows - 1) 1) (length (ksl state)))
             windows (xcon state) of
        Inl e \<Rightarrow> Inl e
      | Inr (ws, xc) \<Rightarrow> Inr (state\<lparr>xcon := xc, wsetups := ws\<rparr>))"

text \<open>
  The value of that expression in exact arithmetic, \<open>\<lfloor>ln a / ln k\<rfloor>\<close> for \<open>a \<ge> 1\<close> and
  \<open>k \<ge> 2\<close>.
\<close>

definition exact_log_quotient :: "nat \<Rightarrow> nat \<Rightarrow> nat" where
  "exact_log_quotient a k = floorlog k a - 1"

section \<open>Narrowing the structure\<close>

definition xcb_destroy_window :: "xcb_connection_t \<Rightarrow> xcb_window_t \<Rightarrow> xcb_connection_t" where
  "xcb_destroy_window xc w = xc\<lparr>requests := requests xc @ [Destroy_window w]\<rparr>"

fun wsetup_free :: "xcb_connection_t \<Rightarrow> window_setup_t \<Rightarrow> xcb_connection_t" where
  "wsetup_free xc (Window_setup ov win c chs) =
     fold (\<lambda>child xc'. wsetup_free xc' child) chs
       (case ov of None \<Rightarrow> xc | Some w \<Rightarrow> xcb_destroy_window xc w)"

text \<open>
  \<^verbatim>\<open>wsetup_choose\<close>: the redrawing of the labels by \<^verbatim>\<open>overlays_set_text\<close> creates and
  destroys no window and is left out.
\<close>

definition wsetup_choose :: "xcw_state_t \<Rightarrow> window_setup_t \<Rightarrow> status \<times> xcw_state_t" where
  "wsetup_choose state wsetup =
     (case window wsetup of
        Some w \<Rightarrow>
          if length (children wsetup) = 0 then (Exit_match w, state)
          else (Running, state\<lparr>wsetups := children wsetup\<rparr>)
      | None \<Rightarrow> (Running, state\<lparr>wsetups := children wsetup\<rparr>))"

text \<open>
  The loop of \<^verbatim>\<open>wsetups_descend_by_index\<close> over the array it saved on entry; it stops
  when \<^verbatim>\<open>wsetup_choose\<close> exits the process.
\<close>

fun descend_loop ::
  "xcw_state_t \<Rightarrow> window_setup_t list \<Rightarrow> nat \<Rightarrow> nat \<Rightarrow> status \<times> xcw_state_t" where
  "descend_loop state [] i index = (Running, state)"
| "descend_loop state (wsetup # rest) i index =
     (if i = index
      then (case wsetup_choose state wsetup of
              (Running, state') \<Rightarrow> descend_loop state' rest (Suc i) index
            | (Exit_match w, state') \<Rightarrow> (Exit_match w, state')
            | (Exit_no_match, state') \<Rightarrow> (Exit_no_match, state'))
      else descend_loop (state\<lparr>xcon := wsetup_free (xcon state) wsetup\<rparr>) rest (Suc i) index)"

definition wsetups_descend_by_index :: "xcw_state_t \<Rightarrow> nat \<Rightarrow> status \<times> xcw_state_t" where
  "wsetups_descend_by_index state index = descend_loop state (wsetups state) 0 index"

fun find_character :: "window_setup_t list \<Rightarrow> nat \<Rightarrow> char \<Rightarrow> nat option" where
  "find_character [] i c = None"
| "find_character (wsetup # rest) i c =
     (if wcharacter wsetup = c then Some i else find_character rest (Suc i) c)"

definition wsetups_descend_by_char :: "xcw_state_t \<Rightarrow> char \<Rightarrow> status \<times> xcw_state_t" where
  "wsetups_descend_by_char state c =
     (case find_character (wsetups state) 0 c of
        None \<Rightarrow> (Exit_no_match, state)
      | Some index \<Rightarrow> wsetups_descend_by_index state index)"

definition handle_keypress :: "xcw_state_t \<Rightarrow> xcb_keysym_t \<Rightarrow> status \<times> xcw_state_t" where
  "handle_keypress state ksym =
     (case keysyms_lookup_find_keysym (ksl state) ksym of
        None \<Rightarrow> (Exit_no_match, state)
      | Some ksl_item \<Rightarrow> wsetups_descend_by_char state (character ksl_item))"

section \<open>The program\<close>

text \<open>
  \<^verbatim>\<open>main\<close> after the tracking structure is built: the three-way test on
  \<^verbatim>\<open>wsetups_size\<close>, then the event loop, here run on the key presses received so far.
  The loop of the program never returns; \<^verbatim>\<open>Running\<close> after the last key means that the
  process is waiting for the next event.
\<close>

definition start :: "xcw_state_t \<Rightarrow> status \<times> xcw_state_t" where
  "start state =
     (if length (wsetups state) = 0 then (Exit_no_match, state)
      else if length (wsetups state) = 1 then wsetup_choose state (hd (wsetups state))
      else (Running, state))"

fun event_loop :: "status \<times> xcw_state_t \<Rightarrow> xcb_keysym_t list \<Rightarrow> status \<times> xcw_state_t" where
  "event_loop (Running, state) (ksym # rest) = event_loop (handle_keypress state ksym) rest"
| "event_loop (st, state) keys = (st, state)"

definition initialise_xorg :: xcb_connection_t where
  "initialise_xorg = \<lparr>next_id = 0, requests = []\<rparr>"

definition main ::
  "(nat \<Rightarrow> nat \<Rightarrow> nat) \<Rightarrow> string \<Rightarrow> xcb_window_t list \<Rightarrow> xcb_keysym_t list \<Rightarrow>
     error + (status \<times> xcw_state_t)" where
  "main log_quotient char_pool windows keys =
     (case parse_arg_characters char_pool of
        Inl e \<Rightarrow> Inl e
      | Inr ks \<Rightarrow>
          (case initialise_window_tracking log_quotient
                  \<lparr>xcon = initialise_xorg, ksl = ks, wsetups = []\<rparr> windows of
             Inl e \<Rightarrow> Inl e
           | Inr state \<Rightarrow> Inr (event_loop (start state) keys)))"

section \<open>What is observed of a structure and of the connection\<close>

fun overlays :: "window_setup_t \<Rightarrow> xcb_window_t list" where
  "overlays (Window_setup ov win c chs) =
     (case ov of None \<Rightarrow> [] | Some w \<Rightarrow> [w]) @ concat (map overlays chs)"

fun tracked_windows :: "window_setup_t \<Rightarrow> xcb_window_t list" where
  "tracked_windows (Window_setup ov win c chs) =
     (case win of None \<Rightarrow> [] | Some w \<Rightarrow> [w]) @ concat (map tracked_windows chs)"

text \<open>
  The strings that choose a window: the characters from a top-level structure down to a
  structure that \<^verbatim>\<open>wsetup_choose\<close> takes as a choice, with the window chosen.
\<close>

fun paths :: "window_setup_t \<Rightarrow> (string \<times> xcb_window_t) list" where
  "paths (Window_setup ov win c chs) =
     (case win of
        Some w \<Rightarrow>
          if length chs = 0 then [([c], w)]
          else map (\<lambda>(p, w'). (c # p, w')) (concat (map paths chs))
      | None \<Rightarrow> map (\<lambda>(p, w'). (c # p, w')) (concat (map paths chs)))"

text \<open>
  The keys of a string handled one after the other by \<^verbatim>\<open>wsetups_descend_by_char\<close>, as
  the event loop does with the characters of the keys pressed.
\<close>

fun type_characters :: "status \<times> xcw_state_t \<Rightarrow> string \<Rightarrow> status \<times> xcw_state_t" where
  "type_characters (Running, state) (c # rest) =
     type_characters (wsetups_descend_by_char state c) rest"
| "type_characters (st, state) cs = (st, state)"

definition created :: "xcb_connection_t \<Rightarrow> xcb_window_t list" where
  "created xc = concat (map (\<lambda>rq. case rq of Create_window w \<Rightarrow> [w] | Destroy_window w \<Rightarrow> []) (requests xc))"

definition destroyed :: "xcb_connection_t \<Rightarrow> xcb_window_t list" where
  "destroyed xc = concat (map (\<lambda>rq. case rq of Create_window w \<Rightarrow> [] | Destroy_window w \<Rightarrow> [w]) (requests xc))"

definition live :: "xcb_connection_t \<Rightarrow> xcb_window_t list" where
  "live xc = filter (\<lambda>w. w \<notin> set (destroyed xc)) (created xc)"

text \<open>The connection after \<open>k\<close> more overlay windows have been created.\<close>

definition advance :: "xcb_connection_t \<Rightarrow> nat \<Rightarrow> xcb_connection_t" where
  "advance xc k =
     xc\<lparr>next_id := next_id xc + k,
        requests := requests xc @ map Create_window [next_id xc ..< next_id xc + k]\<rparr>"

text \<open>The value of \<^verbatim>\<open>children_windows_size\<close> in iteration \<open>i\<close> of the loop.\<close>

definition group_size :: "nat \<Rightarrow> nat \<Rightarrow> nat \<Rightarrow> nat" where
  "group_size p r i = (if i < r then p + 1 else p)"

text \<open>
  The invariant that the comment on \<^verbatim>\<open>window_setup_t\<close> states: exactly one of \<^verbatim>\<open>window\<close>
  (paired with the overlay) and \<^verbatim>\<open>children\<close> is non-NULL.
\<close>

fun wsetup_inv :: "window_setup_t \<Rightarrow> bool" where
  "wsetup_inv (Window_setup ov win c chs) =
     (if chs = [] then ov \<noteq> None \<and> win \<noteq> None
      else ov = None \<and> win = None \<and> list_all wsetup_inv chs)"

text \<open>
  An array of structures of at most \<open>d + 1\<close> levels in which, at every level, the
  \<open>j\<close>-th structure carries the character \<^verbatim>\<open>ksl[j].character\<close>.
\<close>

fun labelled :: "keysyms_lookup_t list \<Rightarrow> nat \<Rightarrow> window_setup_t list \<Rightarrow> bool" where
  "labelled ks 0 ts =
     (length ts \<le> length ks \<and> map wcharacter ts = map character (take (length ts) ks)
      \<and> list_all (\<lambda>t. children t = []) ts)"
| "labelled ks (Suc d) ts =
     (length ts \<le> length ks \<and> map wcharacter ts = map character (take (length ts) ks)
      \<and> list_all (\<lambda>t. labelled ks d (children t)) ts)"

text \<open>The connection after the windows \<open>ws\<close> have been destroyed, in that order.\<close>

definition release :: "xcb_connection_t \<Rightarrow> xcb_window_t list \<Rightarrow> xcb_connection_t" where
  "release xc ws = xc\<lparr>requests := requests xc @ map Destroy_window ws\<rparr>"

text \<open>
  The bound on the length of a label as the specification writes it,
  \<open>D = max(1, \<lceil>log(max(N - 1, 1)) / log K\<rceil>)\<close>, in real arithmetic.
\<close>

definition spec_depth :: "nat \<Rightarrow> nat \<Rightarrow> nat" where
  "spec_depth K N = max 1 (nat \<lceil>ln (real (max (N - 1) 1)) / ln (real K)\<rceil>)"

text \<open>
  The number of windows used up before iteration \<open>i\<close> of the loop, that is
  \<^verbatim>\<open>remain_windows - windows\<close> at its start.
\<close>

definition group_offset :: "nat \<Rightarrow> nat \<Rightarrow> nat \<Rightarrow> nat" where
  "group_offset p r i = i * p + min i r"

text \<open>
  What holds of the state while the program waits for a key: the structures of the
  current array are well formed, and the overlay windows created and not yet destroyed
  are exactly, and once each, those held in the current array and below it.
\<close>

definition resource_inv :: "xcw_state_t \<Rightarrow> bool" where
  "resource_inv state \<longleftrightarrow>
     list_all wsetup_inv (wsetups state) \<and> wsetups state \<noteq> []
     \<and> distinct (created (xcon state)) \<and> distinct (destroyed (xcon state))
     \<and> set (destroyed (xcon state)) \<subseteq> set (created (xcon state))
     \<and> distinct (concat (map overlays (wsetups state)))
     \<and> set (concat (map overlays (wsetups state)))
         = set (created (xcon state)) - set (destroyed (xcon state))"

text \<open>
  What holds of the state when the process has exited: every window destroyed had been
  created, none was destroyed twice, and at least one created window was not destroyed.
\<close>

definition exited_inv :: "xcw_state_t \<Rightarrow> bool" where
  "exited_inv state \<longleftrightarrow>
     distinct (destroyed (xcon state))
     \<and> set (destroyed (xcon state)) \<subseteq> set (created (xcon state))
     \<and> length (destroyed (xcon state)) < length (created (xcon state))"

section \<open>Lemmas about the builder\<close>

lemma advance_0: "advance xc 0 = xc"
  by (simp add: advance_def)

lemma advance_advance: "advance (advance xc a) b = advance xc (a + b)"
proof -
  have "[next_id xc ..< next_id xc + (a + b)] = [next_id xc ..< next_id xc + a] @ [next_id xc + a ..< next_id xc + a + b]"
    by (metis add.assoc le_add1 upt_add_eq_append)
  then show ?thesis by (simp add: advance_def)
qed

lemma next_id_advance: "next_id (advance xc k) = next_id xc + k"
  by (simp add: advance_def)

lemma initialise_window_setup_eq:
  "initialise_window_setup xc w c = (Window_setup (Some (next_id xc)) (Some w) c [], advance xc 1)"
  by (simp add: initialise_window_setup_def overlay_create_def advance_def)

lemma group_loop_done:
  "\<not> i < n \<Longrightarrow> group_loop rec ks p r n i rw xc = Inr ([], xc)"
  by (subst group_loop.simps) simp

lemma group_loop_step:
  "i < n \<Longrightarrow> group_loop rec ks p r n i rw xc =
     (if length ks \<le> i then Inl Ksl_out_of_bounds
      else if length rw < group_size p r i then Inl Windows_out_of_bounds
      else
        (case (if group_size p r i = 1
               then Inr (Window_setup (Some (next_id xc)) (Some (hd rw)) (character (ks ! i)) [], advance xc 1)
               else (case rec (take (group_size p r i) rw) xc of
                       Inl e \<Rightarrow> Inl e
                     | Inr (chs, xc1) \<Rightarrow> Inr (Window_setup None None (character (ks ! i)) chs, xc1))) of
           Inl e \<Rightarrow> Inl e
         | Inr (s, xc1) \<Rightarrow>
             (case group_loop rec ks p r n (Suc i) (drop (group_size p r i) rw) xc1 of
                Inl e \<Rightarrow> Inl e
              | Inr (ss, xc2) \<Rightarrow> Inr (s # ss, xc2))))"
  unfolding group_size_def
  by (subst group_loop.simps) (simp add: Let_def initialise_window_setup_eq)

lemma leaf_loop_total:
  "i + length ws \<le> length ks \<Longrightarrow> \<exists>ts. leaf_loop ks i ws xc = Inr (ts, advance xc (length ws))"
proof (induction ws arbitrary: i xc)
  case Nil
  then show ?case by (simp add: advance_0)
next
  case (Cons w ws)
  from Cons.prems have "Suc i + length ws \<le> length ks" by simp
  from Cons.IH[OF this, of "advance xc 1"] obtain ts where
    "leaf_loop ks (Suc i) ws (advance xc 1) = Inr (ts, advance xc (1 + length ws))"
    by (auto simp: advance_advance)
  with Cons.prems show ?case
    by (simp add: initialise_window_setup_eq)
qed

lemma leaf_loop_out_of_bounds:
  "ws \<noteq> [] \<Longrightarrow> length ks < i + length ws \<Longrightarrow> leaf_loop ks i ws xc = Inl Ksl_out_of_bounds"
proof (induction ws arbitrary: i xc)
  case Nil
  then show ?case by simp
next
  case (Cons w ws)
  show ?case
  proof (cases "i < length ks")
    case True
    with Cons.prems have "ws \<noteq> []" "length ks < Suc i + length ws" by auto
    from Cons.IH[OF this] True show ?thesis
      by (simp add: initialise_window_setup_eq)
  next
    case False
    then show ?thesis by simp
  qed
qed

lemma group_loop_total:
  assumes rec_ok: "\<And>ws xc. length ws \<le> M \<Longrightarrow> \<exists>chs. rec ws xc = Inr (chs, advance xc (length ws))"
    and sizes: "\<And>j. i \<le> j \<Longrightarrow> j < n \<Longrightarrow> 1 \<le> group_size p r j \<and> group_size p r j \<le> M"
    and len: "length rw = sum_list (map (group_size p r) [i..<n])"
    and n: "n \<le> length ks"
  shows "\<exists>ts. group_loop rec ks p r n i rw xc = Inr (ts, advance xc (length rw))"
  using sizes len
proof (induction "n - i" arbitrary: i rw xc)
  case 0
  then have "\<not> i < n" by simp
  with 0 show ?case by (simp add: group_loop_done advance_0)
next
  case (Suc k)
  then have i: "i < n" by simp
  let ?g = "group_size p r i"
  have g: "1 \<le> ?g" "?g \<le> M" using Suc.prems(1)[of i] i by auto
  have len: "length rw = ?g + sum_list (map (group_size p r) [Suc i..<n])"
    using Suc.prems(2) i by (simp add: upt_conv_Cons)
  have k: "k = n - Suc i" using Suc.hyps(2) by simp
  have rest: "\<exists>ts. group_loop rec ks p r n (Suc i) (drop ?g rw) xc1 = Inr (ts, advance xc1 (length (drop ?g rw)))" for xc1
    by (rule Suc.hyps(1)[OF k]) (use Suc.prems(1) len in auto)
  obtain s xc1 where first:
    "(if ?g = 1
               then Inr (Window_setup (Some (next_id xc)) (Some (hd rw)) (character (ks ! i)) [], advance xc 1)
               else (case rec (take ?g rw) xc of
                       Inl e \<Rightarrow> Inl e
                     | Inr (chs, xc1) \<Rightarrow> Inr (Window_setup None None (character (ks ! i)) chs, xc1))) = Inr (s, xc1)"
    "xc1 = advance xc ?g"
  proof (cases "?g = 1")
    case True
    then show ?thesis using that by simp
  next
    case False
    have "length (take ?g rw) = ?g" using len by simp
    with rec_ok[of "take ?g rw" xc] g obtain chs where "rec (take ?g rw) xc = Inr (chs, advance xc ?g)"
      by auto
    then show ?thesis using that False by simp
  qed
  from rest[of xc1] obtain ts where ts: "group_loop rec ks p r n (Suc i) (drop ?g rw) xc1 = Inr (ts, advance xc1 (length (drop ?g rw)))"
    by blast
  have "advance xc1 (length (drop ?g rw)) = advance xc (length rw)"
    using first(2) len by (simp add: advance_advance)
  with ts first i n len show ?case
    by (simp add: group_loop_step)
qed


lemma sum_group_sizes: "sum_list (map (group_size p r) [0..<n]) = n * p + min n r"
  by (induction n) (auto simp: group_size_def)

lemma sum_group_sizes_top:
  assumes "0 < K"
  shows "sum_list (map (group_size (N div K) (N mod K)) [0..<(if 0 < N div K then K else N mod K)]) = N"
proof (cases "0 < N div K")
  case True
  have "N mod K < K" using assms by simp
  then have "min K (N mod K) = N mod K" by simp
  with True show ?thesis by (simp add: sum_group_sizes)
next
  case False
  then have "N < K" using assms by (simp add: div_eq_0_iff)
  with False show ?thesis by (simp add: sum_group_sizes)
qed

lemma group_size_bounds:
  assumes K: "0 < K" and N: "N \<le> K * M"
    and j: "j < (if 0 < N div K then K else N mod K)"
  shows "1 \<le> group_size (N div K) (N mod K) j \<and> group_size (N div K) (N mod K) j \<le> M"
proof (cases "j < N mod K")
  case True
  then have "N mod K \<noteq> 0" by simp
  then have "N \<noteq> K * M" by auto
  with N have "N < K * M" by simp
  then have "N div K < M" using K by (simp add: less_mult_imp_div_less mult.commute)
  with True show ?thesis by (simp add: group_size_def)
next
  case False
  with j have pos: "0 < N div K" by (auto split: if_splits)
  have "N div K \<le> M" using N K
    by (metis div_le_mono nonzero_mult_div_cancel_left less_numeral_extra(3))
  with False pos show ?thesis by (simp add: group_size_def)
qed

lemma initialise_window_tracking'_total:
  "length ks \<noteq> 0 \<Longrightarrow> length ws \<le> length ks ^ Suc d \<Longrightarrow>
     \<exists>ts. initialise_window_tracking' ks d ws xc = Inr (ts, advance xc (length ws))"
proof (induction d arbitrary: ws xc)
  case 0
  then show ?case using leaf_loop_total[of 0 ws ks xc] by simp
next
  case (Suc d)
  let ?K = "length ks" and ?N = "length ws"
  let ?n = "if 0 < ?N div ?K then ?K else ?N mod ?K"
  have K: "0 < ?K" using Suc.prems by simp
  have n: "?n \<le> ?K" using K by (simp add: less_imp_le)
  have "\<exists>ts. group_loop (initialise_window_tracking' ks d) ks (?N div ?K) (?N mod ?K) ?n 0 ws xc
           = Inr (ts, advance xc (length ws))"
  proof (rule group_loop_total[where M = "?K ^ Suc d"])
    show "\<exists>chs. initialise_window_tracking' ks d ws' xc' = Inr (chs, advance xc' (length ws'))"
      if "length ws' \<le> ?K ^ Suc d" for ws' xc'
      using Suc.IH[OF Suc.prems(1) that] .
    show "1 \<le> group_size (?N div ?K) (?N mod ?K) j \<and> group_size (?N div ?K) (?N mod ?K) j \<le> ?K ^ Suc d"
      if "j < ?n" for j
      using group_size_bounds[OF K _ that] Suc.prems(2) by simp
    show "length ws = sum_list (map (group_size (?N div ?K) (?N mod ?K)) [0..<?n])"
      using sum_group_sizes_top[OF K] by simp
    show "?n \<le> ?K" by (rule n)
  qed
  with K show ?case by (simp add: Let_def)
qed


lemma group_loop_InrE:
  assumes "group_loop rec ks p r n i rw xc = Inr (ts, xc')" and "i < n"
  obtains s ss xc1 where "ts = s # ss" "i < length ks" "group_size p r i \<le> length rw"
    "group_loop rec ks p r n (Suc i) (drop (group_size p r i) rw) xc1 = Inr (ss, xc')"
    "group_size p r i = 1 \<longrightarrow>
       s = Window_setup (Some (next_id xc)) (Some (hd rw)) (character (ks ! i)) [] \<and> xc1 = advance xc 1"
    "group_size p r i \<noteq> 1 \<longrightarrow>
       (\<exists>chs. rec (take (group_size p r i) rw) xc = Inr (chs, xc1)
            \<and> s = Window_setup None None (character (ks ! i)) chs)"
  using assms
  by (simp add: group_loop_step split: if_splits sum.splits prod.splits)

lemma upt_add_Suc: "[a ..< a + Suc n] = a # [Suc a ..< Suc a + n]"
  by (simp add: upt_conv_Cons del: upt_Suc)

lemma leaf_loop_props:
  "leaf_loop ks i ws xc = Inr (ts, xc') \<Longrightarrow>
     xc' = advance xc (length ws)
     \<and> concat (map tracked_windows ts) = ws
     \<and> concat (map overlays ts) = [next_id xc ..< next_id xc + length ws]
     \<and> list_all wsetup_inv ts
     \<and> list_all (\<lambda>t. children t = []) ts
     \<and> length ts = length ws
     \<and> map wcharacter ts = map character (take (length ws) (drop i ks))"
proof (induction ws arbitrary: i xc ts)
  case Nil
  then show ?case by (simp add: advance_0)
next
  case (Cons w ws)
  from Cons.prems have i: "i < length ks" by (simp split: if_splits)
  with Cons.prems obtain ss where
    ss: "leaf_loop ks (Suc i) ws (advance xc 1) = Inr (ss, xc')"
    and ts: "ts = Window_setup (Some (next_id xc)) (Some w) (character (ks ! i)) [] # ss"
    by (auto simp: initialise_window_setup_eq split: sum.splits)
  note IH = Cons.IH[OF ss]
  have up: "[next_id xc ..< next_id xc + length (w # ws)] = next_id xc # [next_id (advance xc 1) ..< next_id (advance xc 1) + length ws]"
    using upt_add_Suc[of "next_id xc" "length ws"] by (simp add: next_id_advance)
  have ch: "map character (take (length (w # ws)) (drop i ks)) = character (ks ! i) # map character (take (length ws) (drop (Suc i) ks))"
    using i by (simp add: Cons_nth_drop_Suc[symmetric])
  show ?case
    unfolding up ch using IH by (simp add: ts advance_advance)
qed


lemma group_loop_props:
  assumes rec: "\<And>ws xc chs xc1. rec ws xc = Inr (chs, xc1) \<Longrightarrow>
        xc1 = advance xc (length ws)
        \<and> concat (map tracked_windows chs) = ws
        \<and> concat (map overlays chs) = [next_id xc ..< next_id xc + length ws]
        \<and> list_all wsetup_inv chs \<and> (ws \<noteq> [] \<longrightarrow> chs \<noteq> []) \<and> Q chs"
    and Q0: "Q []"
    and pos: "\<And>j. i \<le> j \<Longrightarrow> j < n \<Longrightarrow> 1 \<le> group_size p r j"
    and res: "group_loop rec ks p r n i rw xc = Inr (ts, xc')"
  shows "xc' = advance xc (sum_list (map (group_size p r) [i..<n]))
     \<and> concat (map tracked_windows ts) = take (sum_list (map (group_size p r) [i..<n])) rw
     \<and> concat (map overlays ts)
         = [next_id xc ..< next_id xc + sum_list (map (group_size p r) [i..<n])]
     \<and> list_all wsetup_inv ts
     \<and> length ts = n - i
     \<and> map wcharacter ts = map character (take (n - i) (drop i ks))
     \<and> list_all (\<lambda>t. Q (children t)) ts
     \<and> sum_list (map (group_size p r) [i..<n]) \<le> length rw"
  using pos res
proof (induction "n - i" arbitrary: i rw xc ts)
  case 0
  then have "\<not> i < n" by simp
  with 0 show ?case by (simp add: group_loop_done advance_0)
next
  case (Suc k)
  then have i: "i < n" by simp
  let ?g = "group_size p r i"
  let ?L = "sum_list (map (group_size p r) [Suc i..<n])"
  have sum: "sum_list (map (group_size p r) [i..<n]) = ?g + ?L"
    using i by (simp add: upt_conv_Cons)
  have g1: "1 \<le> ?g" using Suc.prems(1)[of i] i by simp
  from Suc.prems(2) i obtain s ss xc1 where
    ts: "ts = s # ss" and ik: "i < length ks" and gl: "?g \<le> length rw"
    and tail: "group_loop rec ks p r n (Suc i) (drop ?g rw) xc1 = Inr (ss, xc')"
    and leaf: "?g = 1 \<longrightarrow>
       s = Window_setup (Some (next_id xc)) (Some (hd rw)) (character (ks ! i)) [] \<and> xc1 = advance xc 1"
    and node: "?g \<noteq> 1 \<longrightarrow>
       (\<exists>chs. rec (take ?g rw) xc = Inr (chs, xc1)
            \<and> s = Window_setup None None (character (ks ! i)) chs)"
    by (rule group_loop_InrE) blast
  have k: "k = n - Suc i" using Suc.hyps(2) by simp
  have IH: "xc' = advance xc1 ?L
     \<and> concat (map tracked_windows ss) = take ?L (drop ?g rw)
     \<and> concat (map overlays ss) = [next_id xc1 ..< next_id xc1 + ?L]
     \<and> list_all wsetup_inv ss
     \<and> length ss = n - Suc i
     \<and> map wcharacter ss = map character (take (n - Suc i) (drop (Suc i) ks))
     \<and> list_all (\<lambda>t. Q (children t)) ss
     \<and> ?L \<le> length (drop ?g rw)"
    by (rule Suc.hyps(1)[OF k _ tail]) (use Suc.prems(1) in auto)
  have first: "xc1 = advance xc ?g \<and> tracked_windows s = take ?g rw
     \<and> overlays s = [next_id xc ..< next_id xc + ?g]
     \<and> wsetup_inv s \<and> wcharacter s = character (ks ! i) \<and> Q (children s)"
  proof (cases "?g = 1")
    case True
    from gl True have "rw \<noteq> []" by auto
    then have "take 1 rw = [hd rw]" by (cases rw) simp_all
    with leaf True Q0 show ?thesis by simp
  next
    case False
    from node False obtain chs where
      chs: "rec (take ?g rw) xc = Inr (chs, xc1)"
      and s: "s = Window_setup None None (character (ks ! i)) chs"
      by blast
    have len: "length (take ?g rw) = ?g" using gl by simp
    have ne: "take ?g rw \<noteq> []" using len g1 by auto
    from rec[OF chs] len ne s show ?thesis by simp
  qed
  have up: "[next_id xc ..< next_id xc + (?g + ?L)]
      = [next_id xc ..< next_id xc + ?g] @ [next_id xc + ?g ..< next_id xc + ?g + ?L]"
    by (metis add.assoc le_add1 upt_add_eq_append)
  have ch: "map character (take (n - i) (drop i ks))
      = character (ks ! i) # map character (take (n - Suc i) (drop (Suc i) ks))"
  proof -
    have "n - i = Suc (n - Suc i)" using i by simp
    then show ?thesis using ik by (simp add: Cons_nth_drop_Suc[symmetric])
  qed
  have tk: "take (?g + ?L) rw = take ?g rw @ take ?L (drop ?g rw)"
    by (simp add: take_add)
  have "?L \<le> length rw - ?g" using IH by simp
  with gl have le: "?g + ?L \<le> length rw" by linarith
  have n1: "n - i = Suc (n - Suc i)" using i by simp
  show ?case
    unfolding sum up ch tk
    using IH first le n1
    by (simp add: ts advance_advance next_id_advance)
qed

lemma group_size_pos:
  assumes "0 < K" and "j < (if 0 < N div K then K else N mod K)"
  shows "1 \<le> group_size (N div K) (N mod K) j"
  using assms by (auto simp: group_size_def split: if_splits)

lemma initialise_window_tracking'_props:
  "initialise_window_tracking' ks d ws xc = Inr (ts, xc') \<Longrightarrow>
     xc' = advance xc (length ws)
     \<and> concat (map tracked_windows ts) = ws
     \<and> concat (map overlays ts) = [next_id xc ..< next_id xc + length ws]
     \<and> list_all wsetup_inv ts
     \<and> length ts = min (length ws) (length ks)
     \<and> labelled ks d ts"
proof (induction d arbitrary: ws xc ts xc')
  case 0
  then have ll: "leaf_loop ks 0 ws xc = Inr (ts, xc')" by simp
  have "length ws \<le> length ks"
  proof (rule ccontr)
    assume "\<not> length ws \<le> length ks"
    then have "ws \<noteq> []" "length ks < 0 + length ws" by auto
    from leaf_loop_out_of_bounds[OF this] ll show False by simp
  qed
  with leaf_loop_props[OF ll] show ?case by simp
next
  case (Suc d)
  let ?K = "length ks" and ?N = "length ws"
  let ?p = "?N div ?K" and ?r = "?N mod ?K"
  let ?n = "if 0 < ?p then ?K else ?r"
  from Suc.prems have K: "0 < ?K" by (auto split: if_splits)
  with Suc.prems have gl:
    "group_loop (initialise_window_tracking' ks d) ks ?p ?r ?n 0 ws xc = Inr (ts, xc')"
    by (simp add: Let_def)
  have sum: "sum_list (map (group_size ?p ?r) [0..<?n]) = ?N"
    by (rule sum_group_sizes_top[OF K])
  have n: "?n = min ?N ?K"
  proof (cases "0 < ?p")
    case True
    then have "?K \<le> ?N" using K by (simp add: div_greater_zero_iff)
    with True show ?thesis by simp
  next
    case False
    then have "?N < ?K" using K by (simp add: div_eq_0_iff)
    with False show ?thesis by simp
  qed
  have rec: "xc1 = advance xc0 (length ws')
        \<and> concat (map tracked_windows chs) = ws'
        \<and> concat (map overlays chs) = [next_id xc0 ..< next_id xc0 + length ws']
        \<and> list_all wsetup_inv chs \<and> (ws' \<noteq> [] \<longrightarrow> chs \<noteq> []) \<and> labelled ks d chs"
    if "initialise_window_tracking' ks d ws' xc0 = Inr (chs, xc1)" for ws' xc0 chs xc1
    using Suc.IH[OF that] K by auto
  have Q0: "labelled ks d []" by (cases d) simp_all
  have props: "xc' = advance xc (sum_list (map (group_size ?p ?r) [0..<?n]))
     \<and> concat (map tracked_windows ts) = take (sum_list (map (group_size ?p ?r) [0..<?n])) ws
     \<and> concat (map overlays ts)
         = [next_id xc ..< next_id xc + sum_list (map (group_size ?p ?r) [0..<?n])]
     \<and> list_all wsetup_inv ts
     \<and> length ts = ?n - 0
     \<and> map wcharacter ts = map character (take (?n - 0) (drop 0 ks))
     \<and> list_all (\<lambda>t. labelled ks d (children t)) ts
     \<and> sum_list (map (group_size ?p ?r) [0..<?n]) \<le> length ws"
    by (rule group_loop_props[where Q = "labelled ks d", OF rec Q0 _ gl])
       (use group_size_pos[OF K] in auto)
  have nK: "?n \<le> ?K" using n by simp
  from props show ?case
    unfolding sum using n nK by simp
qed

section \<open>Lemmas about the depth and the labels\<close>

lemma exact_log_quotient_real:
  assumes "0 < a" and "1 < k"
  shows "exact_log_quotient a k = nat \<lfloor>ln (real a) / ln (real k)\<rfloor>"
  using assms by (simp add: exact_log_quotient_def floorlog_def log_def)

lemma exact_log_quotient_adequate:
  assumes "2 \<le> K"
  shows "N \<le> K ^ Suc (exact_log_quotient (max (N - 1) 1) K)"
proof -
  let ?a = "max (N - 1) 1"
  have a: "0 < ?a" and K: "1 < K" using assms by auto
  from floorlog_bounds[OF a K] have lt: "?a < K ^ floorlog K ?a" by simp
  have "floorlog K ?a \<noteq> 0" using a K by (simp add: floorlog_eq_zero_iff)
  then have "Suc (exact_log_quotient ?a K) = floorlog K ?a"
    by (simp add: exact_log_quotient_def)
  with lt have "?a < K ^ Suc (exact_log_quotient ?a K)" by simp
  then show ?thesis by auto
qed

lemma snd_cons_path: "map snd (map (\<lambda>(p, y). (c # p, y)) xs) = map snd xs"
  by (induction xs) auto

lemma fst_cons_path: "map fst (map (\<lambda>(p, y). (c # p, y)) xs) = map ((#) c) (map fst xs)"
  by (induction xs) auto

lemma distinct_cons_path:
  "distinct (map fst xs) \<Longrightarrow> distinct (map fst (map (\<lambda>(p, y). (c # p, y)) xs))"
  unfolding fst_cons_path by (auto simp: distinct_map inj_on_def)

lemma paths_unfold:
  "paths t = (if children t = [] then (case window t of None \<Rightarrow> [] | Some w \<Rightarrow> [([wcharacter t], w)])
              else map (\<lambda>(p, y). (wcharacter t # p, y)) (concat (map paths (children t))))"
  by (cases t) (auto split: option.splits)

lemma paths_hd:
  "(q, w) \<in> set (paths t) \<Longrightarrow> q \<noteq> [] \<and> hd q = wcharacter t"
  by (auto simp: paths_unfold[of t] split: option.splits if_splits)

lemma paths_snd:
  "wsetup_inv t \<Longrightarrow> map snd (paths t) = tracked_windows t"
proof (induction t)
  case (Window_setup ov win c chs)
  show ?case
  proof (cases "chs = []")
    case True
    with Window_setup.prems show ?thesis by auto
  next
    case False
    with Window_setup.prems have inv: "\<And>t. t \<in> set chs \<Longrightarrow> wsetup_inv t" and win: "win = None"
      by (auto simp: list_all_iff)
    have "map snd (concat (map paths chs)) = concat (map tracked_windows chs)"
      using Window_setup.IH inv by (simp add: map_concat cong: map_cong)
    then have "map snd (map (\<lambda>(p, y). (c # p, y)) (concat (map paths chs))) = concat (map tracked_windows chs)"
      by (simp only: snd_cons_path)
    then show ?thesis using win False by (simp del: map_map map_concat)
  qed
qed

lemma paths_snd_list:
  "list_all wsetup_inv ts \<Longrightarrow> map snd (concat (map paths ts)) = concat (map tracked_windows ts)"
  by (induction ts) (simp_all add: paths_snd)

lemma paths_length:
  "labelled ks d ts \<Longrightarrow> (q, w) \<in> set (concat (map paths ts)) \<Longrightarrow> length q \<le> Suc d"
proof (induction d arbitrary: ts q w)
  case 0
  then obtain t where t: "t \<in> set ts" "(q, w) \<in> set (paths t)" by auto
  with 0 have "children t = []" by (auto simp: list_all_iff)
  with t(2) show ?case by (auto simp: paths_unfold[of t] split: option.splits)
next
  case (Suc d)
  then obtain t where t: "t \<in> set ts" "(q, w) \<in> set (paths t)" by auto
  with Suc.prems have lab: "labelled ks d (children t)" by (auto simp: list_all_iff)
  show ?case
  proof (cases "children t = []")
    case True
    with t(2) show ?thesis by (auto simp: paths_unfold[of t] split: option.splits)
  next
    case False
    with t(2) obtain q' where "q = wcharacter t # q'" "(q', w) \<in> set (concat (map paths (children t)))"
      by (auto simp: paths_unfold[of t])
    with Suc.IH[OF lab this(2)] show ?thesis by simp
  qed
qed

lemma distinct_paths_siblings:
  assumes "distinct (map wcharacter ts)"
    and "\<And>t. t \<in> set ts \<Longrightarrow> distinct (map fst (paths t))"
  shows "distinct (map fst (concat (map paths ts)))"
  using assms
proof (induction ts)
  case Nil
  then show ?case by simp
next
  case (Cons t ts)
  have "set (map fst (paths t)) \<inter> set (map fst (concat (map paths ts))) = {}"
  proof (rule ccontr)
    assume "\<not> ?thesis"
    then obtain q w w' t' where "(q, w) \<in> set (paths t)" "t' \<in> set ts" "(q, w') \<in> set (paths t')"
      by auto
    then have "wcharacter t = wcharacter t'" using paths_hd by metis
    with \<open>t' \<in> set ts\<close> Cons.prems(1) show False by auto
  qed
  with Cons show ?case by simp
qed

lemma labelled_distinct:
  "labelled ks d ts \<Longrightarrow> distinct (map character ks) \<Longrightarrow> distinct (map wcharacter ts)"
  by (cases d) (simp_all add: take_map[symmetric])

lemma paths_distinct:
  "labelled ks d ts \<Longrightarrow> distinct (map character ks) \<Longrightarrow>
     distinct (map fst (concat (map paths ts)))"
proof (induction d arbitrary: ts)
  case 0
  show ?case
  proof (rule distinct_paths_siblings)
    show "distinct (map wcharacter ts)" using 0 by (rule labelled_distinct)
    show "distinct (map fst (paths t))" if "t \<in> set ts" for t
    proof -
      from 0 that have "children t = []" by (auto simp: list_all_iff)
      then show ?thesis by (auto simp: paths_unfold[of t] split: option.splits)
    qed
  qed
next
  case (Suc d)
  show ?case
  proof (rule distinct_paths_siblings)
    show "distinct (map wcharacter ts)" using Suc.prems by (rule labelled_distinct)
    show "distinct (map fst (paths t))" if "t \<in> set ts" for t
    proof (cases "children t = []")
      case True
      then show ?thesis by (auto simp: paths_unfold[of t] split: option.splits)
    next
      case False
      from Suc.prems that have "labelled ks d (children t)" by (auto simp: list_all_iff)
      from Suc.IH[OF this Suc.prems(2)]
      have "distinct (map fst (concat (map paths (children t))))" .
      from distinct_cons_path[OF this] False show ?thesis
        by (simp add: paths_unfold[of t] del: map_map map_concat)
    qed
  qed
qed

lemma initialise_window_tracking_InrD:
  assumes "initialise_window_tracking lq state ws = Inr state'"
  obtains ts xc' where
    "initialise_window_tracking' (ksl state) (lq (max (length ws - 1) 1) (length (ksl state))) ws (xcon state)
       = Inr (ts, xc')"
    "state' = state\<lparr>xcon := xc', wsetups := ts\<rparr>"
  using assms by (auto simp: initialise_window_tracking_def split: sum.splits)

lemma initialise_window_tracking_exact_total:
  assumes "2 \<le> length (ksl state)"
  shows "\<exists>state'. initialise_window_tracking exact_log_quotient state ws = Inr state'"
proof -
  let ?d = "exact_log_quotient (max (length ws - 1) 1) (length (ksl state))"
  have "length (ksl state) \<noteq> 0" using assms by auto
  from initialise_window_tracking'_total[OF this exact_log_quotient_adequate[OF assms], of ws "xcon state"]
  obtain ts where "initialise_window_tracking' (ksl state) ?d ws (xcon state)
       = Inr (ts, advance (xcon state) (length ws))" by blast
  then show ?thesis by (simp add: initialise_window_tracking_def)
qed

section \<open>Lemmas about one level of the structure\<close>

lemma initialise_window_tracking'_out_of_bounds:
  "0 < length ks \<Longrightarrow> length ks ^ Suc d < length ws \<Longrightarrow>
     initialise_window_tracking' ks d ws xc = Inl Ksl_out_of_bounds"
proof (induction d arbitrary: ws xc)
  case 0
  then have "ws \<noteq> []" "length ks < 0 + length ws" by auto
  then show ?case by (simp add: leaf_loop_out_of_bounds)
next
  case (Suc d)
  let ?K = "length ks" and ?N = "length ws"
  let ?p = "?N div ?K" and ?r = "?N mod ?K"
  let ?g = "group_size ?p ?r 0"
  have K: "0 < ?K" by (rule Suc.prems(1))
  have N: "?K * ?K ^ Suc d < ?N" using Suc.prems(2) by simp
  then have p: "?K ^ Suc d \<le> ?p" using K
    by (metis less_imp_le_nat div_le_mono nonzero_mult_div_cancel_left less_numeral_extra(3))
  have K0: "1 \<le> ?K" using K by linarith
  then have K1: "1 \<le> ?K ^ Suc d" by (rule one_le_power)
  with p have p1: "1 \<le> ?p" by linarith
  have g: "?K ^ Suc d < ?g"
  proof (cases "0 < ?r")
    case True
    with p show ?thesis by (simp add: group_size_def)
  next
    case False
    then have "?N = ?K * ?p" by (metis mult_div_mod_eq add.right_neutral not_gr_zero)
    with N have "?K * ?K ^ Suc d < ?K * ?p" by simp
    then have "?K ^ Suc d < ?p" by simp
    with False show ?thesis by (simp add: group_size_def)
  qed
  have gN: "?g \<le> ?N"
  proof -
    have "?N = ?K * ?p + ?r" by simp
    moreover have "?p \<le> ?K * ?p" using mult_le_mono1[OF K0, of ?p] by simp
    ultimately have "?p + ?r \<le> ?N" by linarith
    then show ?thesis by (auto simp: group_size_def)
  qed
  have g1: "?g \<noteq> 1" using g K1 by linarith
  have "length (take ?g ws) = ?g" using gN by simp
  with g have "initialise_window_tracking' ks d (take ?g ws) xc = Inl Ksl_out_of_bounds"
    by (intro Suc.IH[OF K]) simp
  with K K0 p1 gN g1 show ?case
    by (auto simp: Let_def group_loop_step)
qed

lemma leaf_loop_nth:
  "leaf_loop ks i ws xc = Inr (ts, xc') \<Longrightarrow> j < length ws \<Longrightarrow>
     ts ! j = Window_setup (Some (next_id xc + j)) (Some (ws ! j)) (character (ks ! (i + j))) []"
proof (induction ws arbitrary: i xc ts j)
  case Nil
  then show ?case by simp
next
  case (Cons w ws)
  from Cons.prems have i: "i < length ks" by (simp split: if_splits)
  with Cons.prems obtain ss where
    ss: "leaf_loop ks (Suc i) ws (advance xc 1) = Inr (ss, xc')"
    and ts: "ts = Window_setup (Some (next_id xc)) (Some w) (character (ks ! i)) [] # ss"
    by (auto simp: initialise_window_setup_eq split: sum.splits)
  show ?case
  proof (cases j)
    case 0
    with ts show ?thesis by simp
  next
    case (Suc j')
    with Cons.prems have "j' < length ws" by simp
    from Cons.IH[OF ss this] Suc ts show ?thesis by (simp add: next_id_advance)
  qed
qed

lemma group_loop_nth:
  assumes rec: "\<And>ws xc res. rec ws xc = Inr res \<Longrightarrow> snd res = advance xc (length ws)"
    and res: "group_loop rec ks p r n i rw xc = Inr (ts, xc')"
    and j: "i + j < n"
  shows "sum_list (map (group_size p r) [i..<i + j]) + group_size p r (i + j) \<le> length rw
     \<and> (group_size p r (i + j) = 1 \<longrightarrow>
          ts ! j = Window_setup (Some (next_id xc + sum_list (map (group_size p r) [i..<i + j])))
                     (Some (rw ! sum_list (map (group_size p r) [i..<i + j])))
                     (character (ks ! (i + j))) [])
     \<and> (group_size p r (i + j) \<noteq> 1 \<longrightarrow>
          (\<exists>chs. rec (take (group_size p r (i + j)) (drop (sum_list (map (group_size p r) [i..<i + j])) rw))
                     (advance xc (sum_list (map (group_size p r) [i..<i + j])))
                  = Inr (chs, advance xc (sum_list (map (group_size p r) [i..<i + j]) + group_size p r (i + j)))
             \<and> ts ! j = Window_setup None None (character (ks ! (i + j))) chs))"
  using res j
proof (induction j arbitrary: i rw xc ts)
  case 0
  let ?g = "group_size p r i"
  from 0 have i: "i < n" by simp
  from 0(1) i obtain s ss xc1 where
    ts: "ts = s # ss" and gl: "?g \<le> length rw"
    and leaf: "?g = 1 \<longrightarrow>
       s = Window_setup (Some (next_id xc)) (Some (hd rw)) (character (ks ! i)) [] \<and> xc1 = advance xc 1"
    and node: "?g \<noteq> 1 \<longrightarrow>
       (\<exists>chs. rec (take ?g rw) xc = Inr (chs, xc1)
            \<and> s = Window_setup None None (character (ks ! i)) chs)"
    by (rule group_loop_InrE) blast
  have a: "ts ! 0 = Window_setup (Some (next_id xc)) (Some (rw ! 0)) (character (ks ! i)) []"
    if "?g = 1"
  proof -
    from gl that have "rw \<noteq> []" by auto
    then have "hd rw = rw ! 0" by (simp add: hd_conv_nth)
    with leaf that ts show ?thesis by simp
  qed
  have b: "\<exists>chs. rec (take ?g rw) xc = Inr (chs, advance xc ?g)
             \<and> ts ! 0 = Window_setup None None (character (ks ! i)) chs"
    if "?g \<noteq> 1"
  proof -
    from node that obtain chs where c: "rec (take ?g rw) xc = Inr (chs, xc1)"
      "s = Window_setup None None (character (ks ! i)) chs" by blast
    from rec[OF c(1)] gl have "xc1 = advance xc ?g" by simp
    with c ts show ?thesis by simp
  qed
  from a b gl show ?case by (simp add: advance_0)
next
  case (Suc j)
  let ?g = "group_size p r i"
  let ?off = "sum_list (map (group_size p r) [Suc i..<Suc (i + j)])"
  let ?h = "group_size p r (Suc (i + j))"
  from Suc.prems have i: "i < n" and j: "Suc i + j < n" by simp_all
  from Suc.prems(1) i obtain s ss xc1 where
    ts: "ts = s # ss" and gl: "?g \<le> length rw"
    and tail: "group_loop rec ks p r n (Suc i) (drop ?g rw) xc1 = Inr (ss, xc')"
    and leaf: "?g = 1 \<longrightarrow>
       s = Window_setup (Some (next_id xc)) (Some (hd rw)) (character (ks ! i)) [] \<and> xc1 = advance xc 1"
    and node: "?g \<noteq> 1 \<longrightarrow>
       (\<exists>chs. rec (take ?g rw) xc = Inr (chs, xc1)
            \<and> s = Window_setup None None (character (ks ! i)) chs)"
    by (rule group_loop_InrE) blast
  have xc1: "xc1 = advance xc ?g"
  proof (cases "?g = 1")
    case True
    with leaf show ?thesis by simp
  next
    case False
    with node obtain chs where "rec (take ?g rw) xc = Inr (chs, xc1)" by blast
    from rec[OF this] gl show ?thesis by simp
  qed
  note IH = Suc.IH[OF tail j, simplified add_Suc]
  have sum: "sum_list (map (group_size p r) [i..<Suc (i + j)]) = ?g + ?off"
    by (simp add: upt_conv_Cons del: upt_Suc)
  from IH have le: "?off + ?h \<le> length rw - ?g" by (simp del: upt_Suc)
  with gl have le': "?g + ?off + ?h \<le> length rw" by linarith
  have nth: "drop ?g rw ! ?off = rw ! (?g + ?off)"
    using gl by (simp add: nth_drop)
  have dr: "drop ?off (drop ?g rw) = drop (?g + ?off) rw"
    by (simp add: add.commute)
  have adv: "advance xc1 k = advance xc (?g + k)" for k
    by (simp add: xc1 advance_advance)
  have nid: "next_id xc1 + ?off = next_id xc + (?g + ?off)"
    by (simp add: xc1 next_id_advance)
  from IH show ?case
    using le' by (simp add: ts sum nth dr adv nid add_ac del: upt_Suc)
qed

lemma leaf_loop_Inr_le:
  "leaf_loop ks i ws xc = Inr res \<Longrightarrow> ws \<noteq> [] \<Longrightarrow> i + length ws \<le> length ks"
  using leaf_loop_out_of_bounds[of ws ks i xc] by (cases "i + length ws \<le> length ks") auto

lemma initialise_window_tracking'_returns_iff:
  assumes "0 < length ks"
  shows "(\<exists>res. initialise_window_tracking' ks d ws xc = Inr res) \<longleftrightarrow> length ws \<le> length ks ^ Suc d"
proof
  assume "\<exists>res. initialise_window_tracking' ks d ws xc = Inr res"
  then show "length ws \<le> length ks ^ Suc d"
    using initialise_window_tracking'_out_of_bounds[OF assms, of d ws xc]
    by (cases "length ws \<le> length ks ^ Suc d") auto
next
  assume "length ws \<le> length ks ^ Suc d"
  with assms initialise_window_tracking'_total[of ks ws d xc]
  show "\<exists>res. initialise_window_tracking' ks d ws xc = Inr res" by auto
qed

section \<open>The structure built by a call that returns\<close>

text \<open>
  Whenever \<^verbatim>\<open>initialise_window_tracking\<close> builds a structure (it returns without
  reading past the key list), the windows of its bottom-level structures, read from left
  to right, are exactly the tracked windows in their input order, each once, and every
  structure is either a bottom-level one or has children. With the quotient of the
  logarithms computed exactly and at least two characters, a structure is always built.
\<close>

lemma leaves_are_windows_in_order:
  "(initialise_window_tracking lq state ws = Inr state' \<longrightarrow>
      concat (map tracked_windows (wsetups state')) = ws
      \<and> list_all wsetup_inv (wsetups state'))
   \<and> (2 \<le> length (ksl state) \<longrightarrow>
        (\<exists>state''. initialise_window_tracking exact_log_quotient state ws = Inr state''))"
proof (intro conjI impI)
  assume "initialise_window_tracking lq state ws = Inr state'"
  then obtain ts xc' where
    b: "initialise_window_tracking' (ksl state) (lq (max (length ws - 1) 1) (length (ksl state))) ws (xcon state)
       = Inr (ts, xc')"
    and s: "state' = state\<lparr>xcon := xc', wsetups := ts\<rparr>"
    by (rule initialise_window_tracking_InrD)
  from initialise_window_tracking'_props[OF b] s
  show "concat (map tracked_windows (wsetups state')) = ws"
    and "list_all wsetup_inv (wsetups state')" by simp_all
next
  assume "2 \<le> length (ksl state)"
  then show "\<exists>state''. initialise_window_tracking exact_log_quotient state ws = Inr state''"
    by (rule initialise_window_tracking_exact_total)
qed

lemma leaves_are_windows_in_order_example:
  "initialise_window_tracking exact_log_quotient
      \<lparr>xcon = initialise_xorg,
       ksl = [\<lparr>character = CHR ''a'', keysym = 0x61\<rparr>, \<lparr>character = CHR ''b'', keysym = 0x62\<rparr>],
       wsetups = []\<rparr> [10, 20, 30]
     = Inr \<lparr>xcon = \<lparr>next_id = 3, requests = [Create_window 0, Create_window 1, Create_window 2]\<rparr>,
       ksl = [\<lparr>character = CHR ''a'', keysym = 0x61\<rparr>, \<lparr>character = CHR ''b'', keysym = 0x62\<rparr>],
       wsetups =
         [Window_setup None None CHR ''a''
            [Window_setup (Some 0) (Some 10) CHR ''a'' [],
             Window_setup (Some 1) (Some 20) CHR ''b'' []],
          Window_setup (Some 2) (Some 30) CHR ''b'' []]\<rparr>
   \<and> concat (map tracked_windows
         [Window_setup None None CHR ''a''
            [Window_setup (Some 0) (Some 10) CHR ''a'' [],
             Window_setup (Some 1) (Some 20) CHR ''b'' []],
          Window_setup (Some 2) (Some 30) CHR ''b'' []]) = [10, 20, 30]"
proof -
  let ?S = "\<lparr>xcon = initialise_xorg,
       ksl = [\<lparr>character = CHR ''a'', keysym = 0x61\<rparr>, \<lparr>character = CHR ''b'', keysym = 0x62\<rparr>],
       wsetups = []\<rparr>"
  let ?S' = "\<lparr>xcon = \<lparr>next_id = 3, requests = [Create_window 0, Create_window 1, Create_window 2]\<rparr>,
       ksl = [\<lparr>character = CHR ''a'', keysym = 0x61\<rparr>, \<lparr>character = CHR ''b'', keysym = 0x62\<rparr>],
       wsetups =
         [Window_setup None None CHR ''a''
            [Window_setup (Some 0) (Some 10) CHR ''a'' [],
             Window_setup (Some 1) (Some 20) CHR ''b'' []],
          Window_setup (Some 2) (Some 30) CHR ''b'' []]\<rparr>"
  have h: "initialise_window_tracking exact_log_quotient ?S [10, 20, 30] = Inr ?S'"
    by code_simp
  from leaves_are_windows_in_order[of exact_log_quotient ?S "[10, 20, 30]" ?S', THEN conjunct1, rule_format, OF h]
  have "concat (map tracked_windows (wsetups ?S')) = [10, 20, 30]" by (rule conjunct1)
  with h show ?thesis by simp
qed

text \<open>
  Let \<open>p = N div K\<close> and \<open>r = N mod K\<close> for the \<open>N\<close> windows and \<open>K\<close> characters of a
  call of \<^verbatim>\<open>_initialise_window_tracking\<close> that returns. The array built has \<open>min N K\<close>
  structures. The \<open>j\<close>-th carries the character \<^verbatim>\<open>ksl[j].character\<close> and stands for
  the next group of windows in input order: the windows from position
  \<open>j * p + min j r\<close> on, \<open>p + 1\<close> of them if \<open>j < r\<close> and \<open>p\<close> otherwise. A group of one
  window is a bottom-level structure for that window; a larger group is a structure
  without window whose children are what the same function builds for the group with
  the same characters and \<^verbatim>\<open>remain_depth - 1\<close>.
\<close>

lemma partition_of_a_level:
  fixes ks :: "keysyms_lookup_t list" and ws :: "xcb_window_t list"
  defines "p \<equiv> length ws div length ks" and "r \<equiv> length ws mod length ks"
  assumes res: "initialise_window_tracking' ks d ws xc = Inr (ts, xc')" and j: "j < length ts"
  shows "length ts = min (length ws) (length ks)
     \<and> wcharacter (ts ! j) = character (ks ! j)
     \<and> 1 \<le> group_size p r j
     \<and> group_offset p r j + group_size p r j \<le> length ws
     \<and> (group_size p r j = 1 \<longrightarrow>
          ts ! j = Window_setup (Some (next_id xc + group_offset p r j))
                     (Some (ws ! group_offset p r j)) (character (ks ! j)) [])
     \<and> (group_size p r j \<noteq> 1 \<longrightarrow>
          (\<exists>d' chs. d = Suc d'
             \<and> initialise_window_tracking' ks d'
                  (take (group_size p r j) (drop (group_offset p r j) ws))
                  (advance xc (group_offset p r j))
                = Inr (chs, advance xc (group_offset p r j + group_size p r j))
             \<and> ts ! j = Window_setup None None (character (ks ! j)) chs))"
proof -
  note props = initialise_window_tracking'_props[OF res]
  then have len: "length ts = min (length ws) (length ks)" by simp
  show ?thesis
  proof (cases d)
    case 0
    with res have ll: "leaf_loop ks 0 ws xc = Inr (ts, xc')" by simp
    from j len have jN: "j < length ws" and wne: "ws \<noteq> []" by auto
    from leaf_loop_Inr_le[OF ll wne] have NK: "length ws \<le> length ks" by simp
    have gs: "group_size p r j = 1 \<and> group_offset p r j = j"
    proof (cases "length ws < length ks")
      case True
      then have "p = 0" "r = length ws" by (simp_all add: p_def r_def)
      with jN show ?thesis by (simp add: group_size_def group_offset_def)
    next
      case False
      with NK have eq: "length ws = length ks" by simp
      with jN have "0 < length ks" by auto
      with eq have "p = 1" "r = 0" by (simp_all add: p_def r_def)
      then show ?thesis by (simp add: group_size_def group_offset_def)
    qed
    from leaf_loop_nth[OF ll jN] gs jN len show ?thesis by simp
  next
    case (Suc d')
    let ?n = "if 0 < p then length ks else r"
    from res Suc have K: "0 < length ks" by (auto split: if_splits)
    with res Suc have gl:
      "group_loop (initialise_window_tracking' ks d') ks p r ?n 0 ws xc = Inr (ts, xc')"
      by (auto simp: Let_def p_def r_def split: if_splits)
    have rec: "snd res' = advance xc0 (length ws')"
      if "initialise_window_tracking' ks d' ws' xc0 = Inr res'" for ws' xc0 res'
      using initialise_window_tracking'_props[of ks d' ws' xc0 "fst res'" "snd res'"] that by simp
    have n: "length ts = ?n"
    proof (cases "0 < p")
      case True
      then have "length ks \<le> length ws" using K by (simp add: p_def div_greater_zero_iff)
      with True len show ?thesis by simp
    next
      case False
      then have "length ws < length ks" using K by (simp add: p_def div_eq_0_iff)
      with False len show ?thesis by (simp add: r_def)
    qed
    with j have jn: "0 + j < ?n" by simp
    have off: "sum_list (map (group_size p r) [0..<0 + j]) = group_offset p r j"
      by (simp add: sum_group_sizes group_offset_def)
    have pos: "1 \<le> group_size p r j"
      using group_size_pos[OF K, of j "length ws"] jn unfolding p_def r_def by simp
    from group_loop_nth[where rec = "initialise_window_tracking' ks d'", OF rec gl jn, unfolded off]
      pos len Suc show ?thesis
      by auto
  qed
qed


lemma partition_of_a_level_example:
  "initialise_window_tracking'
      [\<lparr>character = CHR ''a'', keysym = 0x61\<rparr>, \<lparr>character = CHR ''b'', keysym = 0x62\<rparr>]
      1 [10, 20, 30] initialise_xorg
    = Inr ([Window_setup None None CHR ''a''
              [Window_setup (Some 0) (Some 10) CHR ''a'' [],
               Window_setup (Some 1) (Some 20) CHR ''b'' []],
            Window_setup (Some 2) (Some 30) CHR ''b'' []],
           \<lparr>next_id = 3, requests = [Create_window 0, Create_window 1, Create_window 2]\<rparr>)
   \<and> group_size (3 div 2) (3 mod 2) 0 = 2 \<and> group_offset (3 div 2) (3 mod 2) 0 = 0
   \<and> group_offset (length [10, 20, 30::nat]
          div length [\<lparr>character = CHR ''a'', keysym = 0x61\<rparr>, \<lparr>character = CHR ''b'', keysym = 0x62\<rparr>])
        (length [10, 20, 30::nat]
          mod length [\<lparr>character = CHR ''a'', keysym = 0x61\<rparr>, \<lparr>character = CHR ''b'', keysym = 0x62\<rparr>]) 0
      + group_size (length [10, 20, 30::nat]
          div length [\<lparr>character = CHR ''a'', keysym = 0x61\<rparr>, \<lparr>character = CHR ''b'', keysym = 0x62\<rparr>])
        (length [10, 20, 30::nat]
          mod length [\<lparr>character = CHR ''a'', keysym = 0x61\<rparr>, \<lparr>character = CHR ''b'', keysym = 0x62\<rparr>]) 0
      \<le> length [10, 20, 30::nat]"
proof -
  let ?ks = "[\<lparr>character = CHR ''a'', keysym = 0x61\<rparr>, \<lparr>character = CHR ''b'', keysym = 0x62\<rparr>]"
  let ?ts = "[Window_setup None None CHR ''a''
              [Window_setup (Some 0) (Some 10) CHR ''a'' [],
               Window_setup (Some 1) (Some 20) CHR ''b'' []],
            Window_setup (Some 2) (Some 30) CHR ''b'' []]"
  have h: "initialise_window_tracking' ?ks 1 [10, 20, 30] initialise_xorg
    = Inr (?ts, \<lparr>next_id = 3, requests = [Create_window 0, Create_window 1, Create_window 2]\<rparr>)"
    by code_simp
  have j: "0 < length ?ts" by simp
  have g: "group_size (3 div 2) (3 mod 2) 0 = 2" "group_offset (3 div 2) (3 mod 2) 0 = 0"
    by (simp_all add: group_size_def group_offset_def)
  from partition_of_a_level[OF h j]
  have "group_offset (length [10, 20, 30::nat] div length ?ks) (length [10, 20, 30::nat] mod length ?ks) 0
      + group_size (length [10, 20, 30::nat] div length ?ks) (length [10, 20, 30::nat] mod length ?ks) 0
      \<le> length [10, 20, 30::nat]"
    by blast
  with h g show ?thesis by blast
qed

text \<open>
  The calls that return are those with \<open>N \<le> K ^ (remain_depth + 1)\<close>; for them the
  array has \<open>min N K\<close> structures, each as described above.
\<close>

lemma partition_of_every_level:
  fixes ks :: "keysyms_lookup_t list" and ws :: "xcb_window_t list"
  defines "p \<equiv> length ws div length ks" and "r \<equiv> length ws mod length ks"
  assumes K: "0 < length ks" and N: "length ws \<le> length ks ^ Suc d"
  shows "\<exists>ts. initialise_window_tracking' ks d ws xc = Inr (ts, advance xc (length ws))
     \<and> length ts = min (length ws) (length ks)
     \<and> (\<forall>j < min (length ws) (length ks).
          wcharacter (ts ! j) = character (ks ! j)
          \<and> 1 \<le> group_size p r j
          \<and> group_offset p r j + group_size p r j \<le> length ws
          \<and> (group_size p r j = 1 \<longrightarrow>
               ts ! j = Window_setup (Some (next_id xc + group_offset p r j))
                          (Some (ws ! group_offset p r j)) (character (ks ! j)) [])
          \<and> (group_size p r j \<noteq> 1 \<longrightarrow>
               (\<exists>d' chs. d = Suc d'
                  \<and> initialise_window_tracking' ks d'
                       (take (group_size p r j) (drop (group_offset p r j) ws))
                       (advance xc (group_offset p r j))
                     = Inr (chs, advance xc (group_offset p r j + group_size p r j))
                  \<and> ts ! j = Window_setup None None (character (ks ! j)) chs)))"
proof -
  from K have "length ks \<noteq> 0" by simp
  from initialise_window_tracking'_total[OF this N, of xc]
  obtain ts where res: "initialise_window_tracking' ks d ws xc = Inr (ts, advance xc (length ws))"
    by blast
  from initialise_window_tracking'_props[OF res]
  have len: "length ts = min (length ws) (length ks)" by simp
  have "\<forall>j < min (length ws) (length ks).
          wcharacter (ts ! j) = character (ks ! j)
          \<and> 1 \<le> group_size p r j
          \<and> group_offset p r j + group_size p r j \<le> length ws
          \<and> (group_size p r j = 1 \<longrightarrow>
               ts ! j = Window_setup (Some (next_id xc + group_offset p r j))
                          (Some (ws ! group_offset p r j)) (character (ks ! j)) [])
          \<and> (group_size p r j \<noteq> 1 \<longrightarrow>
               (\<exists>d' chs. d = Suc d'
                  \<and> initialise_window_tracking' ks d'
                       (take (group_size p r j) (drop (group_offset p r j) ws))
                       (advance xc (group_offset p r j))
                     = Inr (chs, advance xc (group_offset p r j + group_size p r j))
                  \<and> ts ! j = Window_setup None None (character (ks ! j)) chs))"
  proof (intro allI impI)
    fix j assume "j < min (length ws) (length ks)"
    with len have j: "j < length ts" by simp
    from partition_of_a_level[OF res j] show
      "wcharacter (ts ! j) = character (ks ! j)
          \<and> 1 \<le> group_size p r j
          \<and> group_offset p r j + group_size p r j \<le> length ws
          \<and> (group_size p r j = 1 \<longrightarrow>
               ts ! j = Window_setup (Some (next_id xc + group_offset p r j))
                          (Some (ws ! group_offset p r j)) (character (ks ! j)) [])
          \<and> (group_size p r j \<noteq> 1 \<longrightarrow>
               (\<exists>d' chs. d = Suc d'
                  \<and> initialise_window_tracking' ks d'
                       (take (group_size p r j) (drop (group_offset p r j) ws))
                       (advance xc (group_offset p r j))
                     = Inr (chs, advance xc (group_offset p r j + group_size p r j))
                  \<and> ts ! j = Window_setup None None (character (ks ! j)) chs))"
      unfolding p_def r_def by (rule conjunct2)
  qed
  with res len show ?thesis by blast
qed

section \<open>Lemmas about narrowing\<close>

lemma release_Nil: "release xc [] = xc"
  by (simp add: release_def)

lemma release_release: "release (release xc a) b = release xc (a @ b)"
  by (simp add: release_def)

lemma wsetup_free_eq: "wsetup_free xc t = release xc (overlays t)"
proof (induction t arbitrary: xc)
  case (Window_setup ov win c chs)
  have "fold (\<lambda>child xc'. wsetup_free xc' child) chs' xc1 = release xc1 (concat (map overlays chs'))"
    if "set chs' \<subseteq> set chs" for chs' xc1
    using that
  proof (induction chs' arbitrary: xc1)
    case Nil
    then show ?case by (simp add: release_Nil)
  next
    case (Cons a chs')
    then show ?case by (simp add: Window_setup.IH release_release)
  qed
  then have "fold (\<lambda>child xc'. wsetup_free xc' child) chs xc1 = release xc1 (concat (map overlays chs))" for xc1
    by simp
  then show ?case
    by (cases ov) (simp_all add: xcb_destroy_window_def release_def)
qed

lemma descend_loop_past:
  "index < j \<Longrightarrow> descend_loop state ts j index
     = (Running, state\<lparr>xcon := release (xcon state) (concat (map overlays ts))\<rparr>)"
proof (induction ts arbitrary: state j)
  case Nil
  then show ?case by (simp add: release_Nil)
next
  case (Cons t ts)
  then show ?case by (simp add: wsetup_free_eq release_release)
qed

lemma descend_loop_at:
  "j \<le> index \<Longrightarrow> index - j < length ts \<Longrightarrow> descend_loop state ts j index =
     (case wsetup_choose (state\<lparr>xcon := release (xcon state) (concat (map overlays (take (index - j) ts)))\<rparr>)
             (ts ! (index - j)) of
        (Running, state') \<Rightarrow>
          (Running, state'\<lparr>xcon := release (xcon state') (concat (map overlays (drop (Suc (index - j)) ts)))\<rparr>)
      | (Exit_match w, state') \<Rightarrow> (Exit_match w, state')
      | (Exit_no_match, state') \<Rightarrow> (Exit_no_match, state'))"
proof (induction ts arbitrary: state j)
  case Nil
  then show ?case by simp
next
  case (Cons t ts)
  show ?case
  proof (cases "j = index")
    case True
    then show ?thesis
      by (auto simp: release_Nil descend_loop_past split: prod.splits status.splits)
  next
    case False
    with Cons.prems have j: "Suc j \<le> index" "index - Suc j < length ts" by auto
    have ix: "index - j = Suc (index - Suc j)" using j by simp
    show ?thesis
      unfolding ix using False Cons.IH[OF j]
      by (simp add: wsetup_free_eq release_release cong: prod.case_cong status.case_cong)
  qed
qed

lemma find_character_None:
  "find_character ts j c = None \<longleftrightarrow> (\<forall>t \<in> set ts. wcharacter t \<noteq> c)"
  by (induction ts arbitrary: j) auto

lemma find_character_Some:
  "i < length ts \<Longrightarrow> wcharacter (ts ! i) = c \<Longrightarrow> \<forall>k<i. wcharacter (ts ! k) \<noteq> c \<Longrightarrow>
     find_character ts j c = Some (j + i)"
proof (induction ts arbitrary: i j)
  case Nil
  then show ?case by simp
next
  case (Cons t ts)
  show ?case
  proof (cases i)
    case 0
    with Cons.prems show ?thesis by simp
  next
    case (Suc i')
    with Cons.prems have "wcharacter t \<noteq> c" by auto
    moreover from Cons.prems Suc have "find_character ts (Suc j) c = Some (Suc j + i')"
      by (intro Cons.IH) auto
    ultimately show ?thesis using Suc by simp
  qed
qed

lemma wsetups_descend_by_char_found:
  assumes "i < length (wsetups state)"
    and "wcharacter (wsetups state ! i) = c"
    and "\<forall>k<i. wcharacter (wsetups state ! k) \<noteq> c"
  shows "(window (wsetups state ! i) \<noteq> None \<and> children (wsetups state ! i) = [] \<longrightarrow>
           wsetups_descend_by_char state c =
             (Exit_match (the (window (wsetups state ! i))),
              state\<lparr>xcon := release (xcon state)
                        (concat (map overlays (take i (wsetups state))))\<rparr>))
       \<and> (\<not> (window (wsetups state ! i) \<noteq> None \<and> children (wsetups state ! i) = []) \<longrightarrow>
           wsetups_descend_by_char state c =
             (Running,
              state\<lparr>wsetups := children (wsetups state ! i),
                    xcon := release (xcon state)
                        (concat (map overlays (take i (wsetups state) @ drop (Suc i) (wsetups state))))\<rparr>))"
proof -
  from find_character_Some[OF assms, of 0]
  have f: "find_character (wsetups state) 0 c = Some i" by simp
  have d: "wsetups_descend_by_char state c = descend_loop state (wsetups state) 0 i"
    by (simp add: wsetups_descend_by_char_def f wsetups_descend_by_index_def)
  show ?thesis
    unfolding d using assms(1)
    by (auto simp: descend_loop_at wsetup_choose_def release_release split: option.splits)
qed

lemma find_character_SomeD:
  "find_character ts j c = Some k \<Longrightarrow>
     \<exists>i. k = j + i \<and> i < length ts \<and> wcharacter (ts ! i) = c \<and> (\<forall>k'<i. wcharacter (ts ! k') \<noteq> c)"
proof (induction ts arbitrary: j)
  case Nil
  then show ?case by simp
next
  case (Cons t ts)
  show ?case
  proof (cases "wcharacter t = c")
    case True
    with Cons.prems show ?thesis by auto
  next
    case False
    with Cons.prems have "find_character ts (Suc j) c = Some k" by simp
    from Cons.IH[OF this] obtain i where
      i: "k = Suc j + i" "i < length ts" "wcharacter (ts ! i) = c" "\<forall>k'<i. wcharacter (ts ! k') \<noteq> c"
      by blast
    have "\<forall>k'<Suc i. wcharacter ((t # ts) ! k') \<noteq> c"
    proof (intro allI impI)
      fix k' assume "k' < Suc i"
      then show "wcharacter ((t # ts) ! k') \<noteq> c"
        using False i(4) by (cases k') auto
    qed
    with i show ?thesis by (intro exI[of _ "Suc i"]) simp
  qed
qed

section \<open>Lemmas about the CHARACTERS argument and a single window\<close>

lemma parse_arg_characters_length:
  "parse_arg_characters char_pool = Inr ks \<Longrightarrow> 2 \<le> length ks"
  by (auto simp: parse_arg_characters_def split: sum.splits if_splits)

lemma initialise_window_tracking'_single:
  assumes "2 \<le> length ks"
  shows "initialise_window_tracking' ks d [w] xc
     = Inr ([Window_setup (Some (next_id xc)) (Some w) (character (ks ! 0)) []], advance xc 1)"
proof (cases d)
  case 0
  with assms show ?thesis by (auto simp: initialise_window_setup_eq)
next
  case (Suc d')
  have "group_loop (initialise_window_tracking' ks d') ks 0 1 1 0 [w] xc
     = Inr ([Window_setup (Some (next_id xc)) (Some w) (character (ks ! 0)) []], advance xc 1)"
    using assms by (auto simp: group_loop_step group_loop_done group_size_def)
  moreover have "length ks \<noteq> 0" "1 div length ks = 0" "1 mod length ks = 1"
    using assms by auto
  ultimately show ?thesis using Suc by (simp add: Let_def)
qed

lemma find_char_mk:
  "keysyms_lookup_find_char (map (\<lambda>c. \<lparr>character = c, keysym = f c\<rparr>) cs) c
     = (if c \<in> set cs then Some \<lparr>character = c, keysym = f c\<rparr> else None)"
  by (induction cs) auto

lemma find_char_ALL:
  "keysyms_lookup_find_char ALL_KEYSYMS_LOOKUP c
     = (if c \<in> set (map character ALL_KEYSYMS_LOOKUP)
        then Some \<lparr>character = c, keysym = of_char c\<rparr> else None)"
proof -
  have "map character (map (\<lambda>c. \<lparr>character = c, keysym = of_char c\<rparr>) cs) = cs" for cs
    by (induction cs) auto
  then show ?thesis
    unfolding ALL_KEYSYMS_LOOKUP_def by (simp only: find_char_mk)
qed

lemma find_char_None:
  "keysyms_lookup_find_char acc c = None \<longleftrightarrow> c \<notin> set (map character acc)"
  by (induction acc) auto

lemma parse_loop_unknown:
  "\<not> set s \<subseteq> set (map character ALL_KEYSYMS_LOOKUP) \<Longrightarrow>
     \<exists>c. parse_arg_characters_loop s acc = Inl (Unknown_character c)"
proof (induction s arbitrary: acc)
  case Nil
  then show ?case by simp
next
  case (Cons c s)
  show ?case
  proof (cases "c \<in> set (map character ALL_KEYSYMS_LOOKUP)")
    case True
    with Cons.prems have "\<not> set s \<subseteq> set (map character ALL_KEYSYMS_LOOKUP)" by auto
    from Cons.IH[OF this] True show ?thesis
      by (simp add: find_char_ALL)
  next
    case False
    then show ?thesis
      by (simp add: find_char_ALL)
  qed
qed

lemma parse_loop_known:
  "set s \<subseteq> set (map character ALL_KEYSYMS_LOOKUP) \<Longrightarrow> distinct (map character acc) \<Longrightarrow>
     \<exists>ks. parse_arg_characters_loop s acc = Inr ks
        \<and> distinct (map character ks)
        \<and> set (map character ks) = set (map character acc) \<union> set s"
proof (induction s arbitrary: acc)
  case Nil
  then show ?case by simp
next
  case (Cons c s)
  from Cons.prems have c: "c \<in> set (map character ALL_KEYSYMS_LOOKUP)"
    and s: "set s \<subseteq> set (map character ALL_KEYSYMS_LOOKUP)" by auto
  show ?case
  proof (cases "c \<in> set (map character acc)")
    case True
    have step: "parse_arg_characters_loop (c # s) acc = parse_arg_characters_loop s acc"
      using True c
      by (simp add: find_char_ALL find_char_None)
    from Cons.IH[OF s Cons.prems(2)] obtain ks where
      ks: "parse_arg_characters_loop s acc = Inr ks" "distinct (map character ks)"
        "set (map character ks) = set (map character acc) \<union> set s" by blast
    have "set (map character ks) = set (map character acc) \<union> set (c # s)"
      unfolding ks(3) using True by auto
    with ks(1,2) step show ?thesis by simp
  next
    case False
    let ?acc = "acc @ [\<lparr>character = c, keysym = of_char c\<rparr>]"
    have step: "parse_arg_characters_loop (c # s) acc = parse_arg_characters_loop s ?acc"
      using False c
      by (simp add: find_char_ALL find_char_None)
    have "distinct (map character ?acc)"
      using Cons.prems(2) False by simp
    from Cons.IH[OF s this] obtain ks where
      ks: "parse_arg_characters_loop s ?acc = Inr ks" "distinct (map character ks)"
        "set (map character ks) = set (map character ?acc) \<union> set s" by blast
    have "set (map character ks) = set (map character acc) \<union> set (c # s)"
      unfolding ks(3) by auto
    with ks(1,2) step show ?thesis by simp
  qed
qed

lemma parse_loop_distinct:
  "set s \<subseteq> set (map character ALL_KEYSYMS_LOOKUP) \<Longrightarrow> distinct s \<Longrightarrow>
   set s \<inter> set (map character acc) = {} \<Longrightarrow>
     parse_arg_characters_loop s acc = Inr (acc @ map (\<lambda>c. \<lparr>character = c, keysym = of_char c\<rparr>) s)"
proof (induction s arbitrary: acc)
  case Nil
  then show ?case by simp
next
  case (Cons c s)
  from Cons.prems have c: "c \<in> set (map character ALL_KEYSYMS_LOOKUP)"
    and s: "set s \<subseteq> set (map character ALL_KEYSYMS_LOOKUP)"
    and n: "c \<notin> set (map character acc)" by auto
  have "parse_arg_characters_loop s (acc @ [\<lparr>character = c, keysym = of_char c\<rparr>])
     = Inr ((acc @ [\<lparr>character = c, keysym = of_char c\<rparr>]) @ map (\<lambda>c. \<lparr>character = c, keysym = of_char c\<rparr>) s)"
    by (rule Cons.IH[OF s]) (use Cons.prems in auto)
  with c n show ?case
    by (simp add: find_char_ALL find_char_None)
qed

text \<open>
  The characters kept by the loop of \<^verbatim>\<open>parse_arg_characters\<close> are the first occurrences
  of the characters of the argument, in the order of the argument:
  \<open>rev (remdups (rev s))\<close>, since \<open>remdups\<close> keeps the last occurrence of each element.
\<close>

lemma remdups_snoc:
  "remdups (xs @ [c]) = remdups (filter (\<lambda>x. x \<noteq> c) xs) @ [c]"
  by (induction xs) auto

lemma first_occurrences_Cons:
  "rev (remdups (rev (c # s))) = c # rev (remdups (rev (filter (\<lambda>x. x \<noteq> c) s)))"
  by (simp add: remdups_snoc rev_filter)

lemma parse_loop_first_occurrences:
  "set s \<subseteq> set (map character ALL_KEYSYMS_LOOKUP) \<Longrightarrow>
     parse_arg_characters_loop s acc
       = Inr (acc @ map (\<lambda>c. \<lparr>character = c, keysym = of_char c\<rparr>)
                      (rev (remdups (rev (filter (\<lambda>x. x \<notin> set (map character acc)) s)))))"
proof (induction s arbitrary: acc)
  case Nil
  then show ?case by simp
next
  case (Cons c s)
  from Cons.prems have c: "c \<in> set (map character ALL_KEYSYMS_LOOKUP)"
    and s: "set s \<subseteq> set (map character ALL_KEYSYMS_LOOKUP)" by auto
  show ?case
  proof (cases "c \<in> set (map character acc)")
    case True
    have step: "parse_arg_characters_loop (c # s) acc = parse_arg_characters_loop s acc"
      using True c by (simp add: find_char_ALL find_char_None)
    have "filter (\<lambda>x. x \<notin> set (map character acc)) (c # s)
        = filter (\<lambda>x. x \<notin> set (map character acc)) s"
      using True by simp
    with Cons.IH[OF s, of acc] step show ?thesis by (simp only:)
  next
    case False
    let ?k = "\<lparr>character = c, keysym = of_char c\<rparr>"
    have step: "parse_arg_characters_loop (c # s) acc = parse_arg_characters_loop s (acc @ [?k])"
      using False c by (simp add: find_char_ALL find_char_None)
    have f1: "filter (\<lambda>x. x \<notin> set (map character acc)) (c # s)
        = c # filter (\<lambda>x. x \<notin> set (map character acc)) s"
      using False by simp
    have f2: "filter (\<lambda>x. x \<notin> set (map character (acc @ [?k]))) s
        = filter (\<lambda>x. x \<noteq> c) (filter (\<lambda>x. x \<notin> set (map character acc)) s)"
      by (induction s) auto
    show ?thesis
      unfolding step Cons.IH[OF s, of "acc @ [?k]"] f1 f2 first_occurrences_Cons
      by simp
  qed
qed

lemma parse_arg_characters_first_occurrences:
  assumes "parse_arg_characters s = Inr ks"
  shows "ks = map (\<lambda>c. \<lparr>character = c, keysym = of_char c\<rparr>) (rev (remdups (rev s)))"
proof -
  have "set s \<subseteq> set (map character ALL_KEYSYMS_LOOKUP)"
  proof (rule ccontr)
    assume "\<not> ?thesis"
    from parse_loop_unknown[OF this, of "[]"] assms show False
      by (auto simp: parse_arg_characters_def)
  qed
  from parse_loop_first_occurrences[OF this, of "[]"] assms show ?thesis
    by (auto simp: parse_arg_characters_def split: if_splits)
qed

lemma main_exact_total:
  assumes "parse_arg_characters char_pool = Inr ks"
  shows "\<exists>st s. main exact_log_quotient char_pool ws keys = Inr (st, s)"
proof -
  have "2 \<le> length ks" using assms by (rule parse_arg_characters_length)
  then have "2 \<le> length (ksl \<lparr>xcon = initialise_xorg, ksl = ks, wsetups = []\<rparr>)" by simp
  from initialise_window_tracking_exact_total[OF this, of ws]
  obtain s0 where "initialise_window_tracking exact_log_quotient
      \<lparr>xcon = initialise_xorg, ksl = ks, wsetups = []\<rparr> ws = Inr s0" by blast
  with assms have "main exact_log_quotient char_pool ws keys = Inr (event_loop (start s0) keys)"
    by (simp add: main_def)
  then show ?thesis by (cases "event_loop (start s0) keys") auto
qed

section \<open>Lemmas about typing a label\<close>

lemma labelled_children:
  "labelled ks d ts \<Longrightarrow> t \<in> set ts \<Longrightarrow> children t \<noteq> [] \<Longrightarrow>
     \<exists>d'. d = Suc d' \<and> labelled ks d' (children t)"
  by (cases d) (auto simp: list_all_iff)

lemma distinct_map_nth_neq:
  assumes "distinct (map f xs)" and "i < length xs" and "k < i"
  shows "f (xs ! k) \<noteq> f (xs ! i)"
proof -
  have "k < length (map f xs)" "i < length (map f xs)" using assms by simp_all
  with assms(1) have "(map f xs ! k = map f xs ! i) = (k = i)" by (rule nth_eq_iff_index_eq)
  with assms show ?thesis by simp
qed

lemma paths_choose:
  "labelled ks d (wsetups s) \<Longrightarrow> distinct (map character ks) \<Longrightarrow>
   (q, w) \<in> set (concat (map paths (wsetups s))) \<Longrightarrow>
     fst (type_characters (Running, s) q) = Exit_match w"
proof (induction d arbitrary: s q)
  case 0
  from "0.prems"(3) obtain t where t: "t \<in> set (wsetups s)" "(q, w) \<in> set (paths t)" by auto
  from "0.prems"(1) t(1) have ch: "children t = []" by (auto simp: list_all_iff)
  with t(2) have q: "q = [wcharacter t]" and win: "window t = Some w"
    by (auto simp: paths_unfold[of t] split: option.splits)
  from t(1) obtain i where i: "i < length (wsetups s)" "wsetups s ! i = t"
    by (auto simp: in_set_conv_nth)
  have dist: "distinct (map wcharacter (wsetups s))"
    using "0.prems"(1,2) by (rule labelled_distinct)
  have first: "\<forall>k<i. wcharacter (wsetups s ! k) \<noteq> wcharacter t"
    using distinct_map_nth_neq[OF dist i(1)] i(2) by simp
  from wsetups_descend_by_char_found[OF i(1) _ first[unfolded i(2)[symmetric]]] i(2) ch win
  have "fst (wsetups_descend_by_char s (wcharacter t)) = Exit_match w" by simp
  then show ?case
    unfolding q by (cases "wsetups_descend_by_char s (wcharacter t)") simp
next
  case (Suc d)
  from Suc.prems(3) obtain t where t: "t \<in> set (wsetups s)" "(q, w) \<in> set (paths t)" by auto
  from t(1) obtain i where i: "i < length (wsetups s)" "wsetups s ! i = t"
    by (auto simp: in_set_conv_nth)
  have dist: "distinct (map wcharacter (wsetups s))"
    using Suc.prems(1,2) by (rule labelled_distinct)
  have first: "\<forall>k<i. wcharacter (wsetups s ! k) \<noteq> wcharacter t"
    using distinct_map_nth_neq[OF dist i(1)] i(2) by simp
  note found = wsetups_descend_by_char_found[OF i(1) _ first[unfolded i(2)[symmetric]], unfolded i(2), OF refl]
  show ?case
  proof (cases "children t = []")
    case True
    with t(2) have q: "q = [wcharacter t]" and win: "window t = Some w"
      by (auto simp: paths_unfold[of t] split: option.splits)
    from found True win
    have "fst (wsetups_descend_by_char s (wcharacter t)) = Exit_match w" by simp
    then show ?thesis
      unfolding q by (cases "wsetups_descend_by_char s (wcharacter t)") simp
  next
    case False
    with t(2) obtain q' where q: "q = wcharacter t # q'"
      and q': "(q', w) \<in> set (concat (map paths (children t)))"
      by (auto simp: paths_unfold[of t])
    from Suc.prems(1) t(1) have lab: "labelled ks d (children t)" by (auto simp: list_all_iff)
    let ?s' = "s\<lparr>wsetups := children t,
                xcon := release (xcon s)
                  (concat (map overlays (take i (wsetups s) @ drop (Suc i) (wsetups s))))\<rparr>"
    from found False have step: "wsetups_descend_by_char s (wcharacter t) = (Running, ?s')"
      by simp
    have "fst (type_characters (Running, ?s') q') = Exit_match w"
      by (rule Suc.IH) (use lab Suc.prems(2) q' in simp_all)
    with step show ?thesis unfolding q by simp
  qed
qed

section \<open>Lemmas about the overlay windows that are live\<close>

lemma created_release: "created (release xc ws) = created xc"
proof -
  have "concat (map (\<lambda>rq. case rq of Create_window w \<Rightarrow> [w] | Destroy_window w \<Rightarrow> []) (map Destroy_window xs)) = []" for xs
    by (induction xs) simp_all
  then show ?thesis by (simp add: created_def release_def del: map_map)
qed

lemma destroyed_release: "destroyed (release xc ws) = destroyed xc @ ws"
proof -
  have "concat (map (\<lambda>rq. case rq of Create_window w \<Rightarrow> [] | Destroy_window w \<Rightarrow> [w]) (map Destroy_window xs)) = xs" for xs
    by (induction xs) simp_all
  then show ?thesis by (simp add: destroyed_def release_def del: map_map)
qed

lemma created_advance: "created (advance xc k) = created xc @ [next_id xc ..< next_id xc + k]"
proof -
  have "concat (map (\<lambda>rq. case rq of Create_window w \<Rightarrow> [w] | Destroy_window w \<Rightarrow> []) (map Create_window xs)) = xs" for xs
    by (induction xs) simp_all
  then show ?thesis by (simp add: created_def advance_def del: map_map)
qed

lemma destroyed_advance: "destroyed (advance xc k) = destroyed xc"
proof -
  have "concat (map (\<lambda>rq. case rq of Create_window w \<Rightarrow> [] | Destroy_window w \<Rightarrow> [w]) (map Create_window xs)) = []" for xs
    by (induction xs) simp_all
  then show ?thesis by (simp add: destroyed_def advance_def del: map_map)
qed

lemma set_live: "set (live xc) = set (created xc) - set (destroyed xc)"
  by (auto simp: live_def)

lemma overlays_nonempty: "wsetup_inv t \<Longrightarrow> overlays t \<noteq> []"
proof (induction t)
  case (Window_setup ov win c chs)
  show ?case
  proof (cases chs)
    case Nil
    with Window_setup.prems show ?thesis by auto
  next
    case (Cons a chs')
    with Window_setup.prems have "wsetup_inv a" by simp
    with Window_setup.IH[of a] Cons show ?thesis by simp
  qed
qed

lemma wsetup_inv_children:
  "wsetup_inv t \<Longrightarrow> children t \<noteq> [] \<Longrightarrow>
     list_all wsetup_inv (children t) \<and> concat (map overlays (children t)) = overlays t
     \<and> window t = None"
  by (cases t) auto

lemma wsetup_inv_leaf:
  "wsetup_inv t \<Longrightarrow> children t = [] \<Longrightarrow> window t \<noteq> None"
  by (cases t) auto

lemma length_destroyed_less:
  assumes "distinct D" "set D \<subseteq> set C" "x \<in> set C" "x \<notin> set D"
  shows "length D < length C"
proof -
  have "set D \<subset> set C" using assms by auto
  then have "card (set D) < card (set C)" by (simp add: psubset_card_mono)
  moreover have "card (set D) = length D" using assms(1) by (simp add: distinct_card)
  moreover have "card (set C) \<le> length C" by (rule card_length)
  ultimately show ?thesis by linarith
qed

lemma resource_inv_exited:
  assumes "resource_inv s"
  shows "exited_inv s"
proof -
  from assms obtain t where t: "t \<in> set (wsetups s)" "wsetup_inv t"
    by (cases "wsetups s") (auto simp: resource_inv_def)
  from overlays_nonempty[OF t(2)] obtain x where "x \<in> set (overlays t)"
    by (cases "overlays t") auto
  with t(1) have "x \<in> set (concat (map overlays (wsetups s)))" by auto
  with assms have x: "x \<in> set (created (xcon s))" "x \<notin> set (destroyed (xcon s))"
    by (simp_all add: resource_inv_def)
  from assms have d: "distinct (destroyed (xcon s))"
    "set (destroyed (xcon s)) \<subseteq> set (created (xcon s))"
    by (simp_all add: resource_inv_def)
  from length_destroyed_less[OF d x] d show ?thesis
    by (simp add: exited_inv_def)
qed

lemma concat_overlays_split:
  assumes "i < length ts"
  shows "concat (map overlays ts)
     = concat (map overlays (take i ts)) @ overlays (ts ! i) @ concat (map overlays (drop (Suc i) ts))"
proof -
  have "ts = take i ts @ ts ! i # drop (Suc i) ts" using assms by (rule id_take_nth_drop)
  then have "concat (map overlays ts)
     = concat (map overlays (take i ts @ ts ! i # drop (Suc i) ts))" by simp
  then show ?thesis by simp
qed

lemma narrowing_sets:
  assumes "distinct D" and "distinct (A @ B @ C)" and "set (A @ B @ C) = S - set D"
    and "set D \<subseteq> S"
  shows "distinct (D @ A)" "set (D @ A) \<subseteq> S" "distinct (D @ A @ C)" "set (D @ A @ C) \<subseteq> S"
    "set B = S - set (D @ A @ C)" "distinct B" "\<And>x. x \<in> set B \<Longrightarrow> x \<in> S \<and> x \<notin> set (D @ A)"
proof -
  from assms(2) have d: "distinct A" "distinct B" "distinct C"
    "set A \<inter> set B = {}" "set A \<inter> set C = {}" "set B \<inter> set C = {}" by auto
  from assms(3) have e: "set A \<union> set B \<union> set C = S - set D" by (simp add: Un_assoc)
  from e have e1: "set A \<union> set B \<union> set C \<subseteq> S - set D"
    and e2: "S - set D \<subseteq> set A \<union> set B \<union> set C" by simp_all
  from e1 have sub: "set A \<subseteq> S - set D" "set B \<subseteq> S - set D" "set C \<subseteq> S - set D" by blast+
  have DA: "set D \<inter> set A = {}" and DC: "set D \<inter> set C = {}" using sub by blast+
  then have DAC: "set D \<inter> (set A \<union> set C) = {}" by blast
  show "distinct (D @ A)" using assms(1) d(1) DA by simp
  show "set (D @ A) \<subseteq> S" unfolding set_append using assms(4) sub(1) by blast
  show "distinct (D @ A @ C)" using assms(1) d(1,3,5) DAC by simp
  show "set (D @ A @ C) \<subseteq> S" unfolding set_append using assms(4) sub(1,3) by blast
  show "set B = S - set (D @ A @ C)" unfolding set_append
  proof
    show "set B \<subseteq> S - (set D \<union> (set A \<union> set C))" using sub(2) d(4,6) by blast
    show "S - (set D \<union> (set A \<union> set C)) \<subseteq> set B" using e2 by blast
  qed
  show "distinct B" by (rule d(2))
  show "x \<in> S \<and> x \<notin> set (D @ A)" if "x \<in> set B" for x
    unfolding set_append using that sub(2) d(4) by blast
qed

lemma resource_inv_descend:
  assumes inv: "resource_inv s" and res: "wsetups_descend_by_char s c = (st, s')"
  shows "(st = Running \<longrightarrow> resource_inv s') \<and> (st \<noteq> Running \<longrightarrow> exited_inv s')"
proof (cases "find_character (wsetups s) 0 c")
  case None
  with res have "st = Exit_no_match" "s' = s" by (auto simp: wsetups_descend_by_char_def)
  with resource_inv_exited[OF inv] show ?thesis by simp
next
  case (Some k)
  from find_character_SomeD[OF Some] have i: "k < length (wsetups s)" "wcharacter (wsetups s ! k) = c"
    "\<forall>k'<k. wcharacter (wsetups s ! k') \<noteq> c" by auto
  let ?ts = "wsetups s" and ?X = "wsetups s ! k"
  let ?D1 = "concat (map overlays (take k ?ts))" and ?D2 = "concat (map overlays (drop (Suc k) ?ts))"
  note found = wsetups_descend_by_char_found[OF i]
  have split: "concat (map overlays ?ts) = ?D1 @ overlays ?X @ ?D2"
    by (rule concat_overlays_split[OF i(1)])
  from inv have X: "wsetup_inv ?X" using i(1) by (auto simp: resource_inv_def list_all_length)
  from inv have dist: "distinct (?D1 @ overlays ?X @ ?D2)"
    and sets: "set (?D1 @ overlays ?X @ ?D2) = set (created (xcon s)) - set (destroyed (xcon s))"
    and dC: "distinct (created (xcon s))" and dD: "distinct (destroyed (xcon s))"
    and sub: "set (destroyed (xcon s)) \<subseteq> set (created (xcon s))"
    unfolding resource_inv_def split by simp_all
  note ns = narrowing_sets[OF dD dist sets sub]
  show ?thesis
  proof (cases "window ?X \<noteq> None \<and> children ?X = []")
    case True
    with found res have st: "st = Exit_match (the (window ?X))"
      and s': "s' = s\<lparr>xcon := release (xcon s) ?D1\<rparr>" by auto
    from overlays_nonempty[OF X] obtain x where x: "x \<in> set (overlays ?X)"
      by (cases "overlays ?X") auto
    from ns(7)[OF x] have "x \<in> set (created (xcon s))" "x \<notin> set (destroyed (xcon s) @ ?D1)"
      by simp_all
    from length_destroyed_less[OF ns(1) ns(2) this] ns(1) ns(2) have "exited_inv s'"
      unfolding exited_inv_def s'
      by (simp add: created_release destroyed_release)
    with st show ?thesis by simp
  next
    case False
    with found res have st: "st = Running"
      and s': "s' = s\<lparr>wsetups := children ?X, xcon := release (xcon s) (?D1 @ ?D2)\<rparr>" by auto
    from False wsetup_inv_leaf[OF X] have ch: "children ?X \<noteq> []" by auto
    note c = wsetup_inv_children[OF X ch]
    from ns(3) ns(4) ns(5) ns(6) c ch dC have "resource_inv s'"
      unfolding resource_inv_def s'
      by (simp add: created_release destroyed_release)
    with st show ?thesis by simp
  qed
qed

lemma created_initialise_xorg: "created initialise_xorg = []" "destroyed initialise_xorg = []"
  "next_id initialise_xorg = 0"
  by (simp_all add: created_def destroyed_def initialise_xorg_def)

lemma resource_inv_init:
  assumes "initialise_window_tracking lq \<lparr>xcon = initialise_xorg, ksl = ks, wsetups = []\<rparr> ws = Inr s0"
    and "ws \<noteq> []"
  shows "resource_inv s0"
proof -
  let ?d = "lq (max (length ws - 1) 1) (length ks)"
  from assms(1) obtain ts xc' where
    b: "initialise_window_tracking' ks ?d ws initialise_xorg = Inr (ts, xc')"
    and s: "s0 = \<lparr>xcon = xc', ksl = ks, wsetups = ts\<rparr>"
    by (auto elim!: initialise_window_tracking_InrD)
  note p = initialise_window_tracking'_props[OF b]
  have K: "0 < length ks"
  proof (cases ?d)
    case 0
    with b have "leaf_loop ks 0 ws initialise_xorg = Inr (ts, xc')" by simp
    from leaf_loop_Inr_le[OF this assms(2)] assms(2) show ?thesis by (cases ws) auto
  next
    case (Suc d')
    with b show ?thesis by (auto split: if_splits)
  qed
  with p assms(2) have ne: "ts \<noteq> []" by (cases ws) auto
  from p have xc': "xc' = advance initialise_xorg (length ws)"
    and ov: "concat (map overlays ts) = [0 ..< length ws]"
    and inv: "list_all wsetup_inv ts"
    by (simp_all add: created_initialise_xorg)
  show ?thesis
    unfolding resource_inv_def s
    using ne ov inv
    by (simp add: xc' created_advance destroyed_advance created_initialise_xorg)
qed

lemma resource_inv_start:
  assumes inv: "resource_inv s" and res: "start s = (st, s')"
  shows "(st = Running \<longrightarrow> resource_inv s') \<and> (st \<noteq> Running \<longrightarrow> exited_inv s')"
proof (cases "length (wsetups s) = 1")
  case False
  with inv res have "st = Running" "s' = s"
    by (auto simp: start_def resource_inv_def)
  with inv show ?thesis by simp
next
  case True
  then obtain X where ts: "wsetups s = [X]" by (cases "wsetups s") auto
  with inv have X: "wsetup_inv X" by (simp add: resource_inv_def)
  from True ts res have ch: "wsetup_choose s X = (st, s')" by (simp add: start_def)
  show ?thesis
  proof (cases "children X = []")
    case True
    with wsetup_inv_leaf[OF X] ch have "st \<noteq> Running" "s' = s"
      by (auto simp: wsetup_choose_def)
    with resource_inv_exited[OF inv] show ?thesis by simp
  next
    case False
    with ch have st: "st = Running" and s': "s' = s\<lparr>wsetups := children X\<rparr>"
      by (auto simp: wsetup_choose_def split: option.splits)
    from wsetup_inv_children[OF X False] inv False have "resource_inv s'"
      unfolding resource_inv_def s' ts by simp
    with st show ?thesis by simp
  qed
qed

lemma resource_inv_keypress:
  assumes inv: "resource_inv s" and res: "handle_keypress s k = (st, s')"
  shows "(st = Running \<longrightarrow> resource_inv s') \<and> (st \<noteq> Running \<longrightarrow> exited_inv s')"
proof (cases "keysyms_lookup_find_keysym (ksl s) k")
  case None
  with res have "st = Exit_no_match" "s' = s" by (auto simp: handle_keypress_def)
  with resource_inv_exited[OF inv] show ?thesis by simp
next
  case (Some item)
  with res have "wsetups_descend_by_char s (character item) = (st, s')"
    by (simp add: handle_keypress_def)
  from resource_inv_descend[OF inv this] show ?thesis .
qed

lemma resource_inv_event_loop:
  assumes "(st0 = Running \<longrightarrow> resource_inv s0) \<and> (st0 \<noteq> Running \<longrightarrow> exited_inv s0)"
    and "event_loop (st0, s0) keys = (st, s)"
  shows "(st = Running \<longrightarrow> resource_inv s) \<and> (st \<noteq> Running \<longrightarrow> exited_inv s)"
  using assms
proof (induction keys arbitrary: st0 s0)
  case Nil
  then show ?case by (cases st0) auto
next
  case (Cons k keys)
  show ?case
  proof (cases st0)
    case Running
    obtain st1 s1 where h: "handle_keypress s0 k = (st1, s1)" by (cases "handle_keypress s0 k")
    from Cons.prems(1) Running have "resource_inv s0" by simp
    from resource_inv_keypress[OF this h]
    have "(st1 = Running \<longrightarrow> resource_inv s1) \<and> (st1 \<noteq> Running \<longrightarrow> exited_inv s1)" .
    moreover from Cons.prems(2) Running h have "event_loop (st1, s1) keys = (st, s)" by simp
    ultimately show ?thesis by (rule Cons.IH)
  next
    case (Exit_match w)
    with Cons.prems show ?thesis by auto
  next
    case Exit_no_match
    with Cons.prems show ?thesis by auto
  qed
qed

section \<open>The tracking structure that is built\<close>


text \<open>
  C1, amended. For at least two pairwise distinct characters: whenever
  \<^verbatim>\<open>initialise_window_tracking\<close> builds a structure, the strings to type are pairwise
  distinct, there is one for each tracked window, in order, typing it chooses that
  window, and none is longer than
  \<open>d + 1\<close>, where \<open>d\<close> is the depth passed: the truncated quotient
  \<open>\<lfloor>log(max(N - 1, 1)) / log K\<rfloor>\<close>, not \<open>max(1, \<lceil>log(max(N - 1, 1)) / log K\<rceil>)\<close>. With
  the quotient computed exactly a structure is always built.
\<close>

theorem labels_distinct_and_bounded:
  assumes "distinct (map character (ksl state))" and "2 \<le> length (ksl state)"
  shows "(\<exists>state'. initialise_window_tracking exact_log_quotient state ws = Inr state')
     \<and> (\<forall>lq state'. initialise_window_tracking lq state ws = Inr state' \<longrightarrow>
          map snd (concat (map paths (wsetups state'))) = ws
          \<and> distinct (map fst (concat (map paths (wsetups state'))))
          \<and> (\<forall>(q, w) \<in> set (concat (map paths (wsetups state'))).
               length q \<le> Suc (lq (max (length ws - 1) 1) (length (ksl state)))
               \<and> fst (type_characters (Running, state') q) = Exit_match w))"
proof (intro conjI allI impI)
  show "\<exists>state'. initialise_window_tracking exact_log_quotient state ws = Inr state'"
    using assms(2) by (rule initialise_window_tracking_exact_total)
next
  fix lq state'
  assume "initialise_window_tracking lq state ws = Inr state'"
  then obtain ts xc' where
    b: "initialise_window_tracking' (ksl state) (lq (max (length ws - 1) 1) (length (ksl state))) ws (xcon state)
       = Inr (ts, xc')"
    and s: "state' = state\<lparr>xcon := xc', wsetups := ts\<rparr>"
    by (rule initialise_window_tracking_InrD)
  note p = initialise_window_tracking'_props[OF b]
  from p have lab: "labelled (ksl state) (lq (max (length ws - 1) 1) (length (ksl state))) ts"
    and inv: "list_all wsetup_inv ts" and tw: "concat (map tracked_windows ts) = ws"
    by simp_all
  show "map snd (concat (map paths (wsetups state'))) = ws"
    using paths_snd_list[OF inv] tw s by simp
  show "distinct (map fst (concat (map paths (wsetups state'))))"
    using paths_distinct[OF lab assms(1)] s by simp
  have lab': "labelled (ksl state) (lq (max (length ws - 1) 1) (length (ksl state))) (wsetups state')"
    using lab s by simp
  show "\<forall>(q, w) \<in> set (concat (map paths (wsetups state'))).
          length q \<le> Suc (lq (max (length ws - 1) 1) (length (ksl state)))
          \<and> fst (type_characters (Running, state') q) = Exit_match w"
  proof (clarify, intro conjI)
    fix q w
    assume m: "(q, w) \<in> set (concat (map paths (wsetups state')))"
    show "length q \<le> Suc (lq (max (length ws - 1) 1) (length (ksl state)))"
      using lab' m by (rule paths_length)
    show "fst (type_characters (Running, state') q) = Exit_match w"
      using lab' assms(1) m by (rule paths_choose)
  qed
qed

theorem labels_distinct_and_bounded_witness:
  "distinct (map character
      (ksl \<lparr>xcon = initialise_xorg,
           ksl = [\<lparr>character = CHR ''a'', keysym = 0x61\<rparr>, \<lparr>character = CHR ''b'', keysym = 0x62\<rparr>],
           wsetups = []\<rparr>))
   \<and> initialise_window_tracking exact_log_quotient
      \<lparr>xcon = initialise_xorg,
       ksl = [\<lparr>character = CHR ''a'', keysym = 0x61\<rparr>, \<lparr>character = CHR ''b'', keysym = 0x62\<rparr>],
       wsetups = []\<rparr> [10, 20, 30]
     = Inr \<lparr>xcon = \<lparr>next_id = 3, requests = [Create_window 0, Create_window 1, Create_window 2]\<rparr>,
       ksl = [\<lparr>character = CHR ''a'', keysym = 0x61\<rparr>, \<lparr>character = CHR ''b'', keysym = 0x62\<rparr>],
       wsetups =
         [Window_setup None None CHR ''a''
            [Window_setup (Some 0) (Some 10) CHR ''a'' [],
             Window_setup (Some 1) (Some 20) CHR ''b'' []],
          Window_setup (Some 2) (Some 30) CHR ''b'' []]\<rparr>
   \<and> distinct (map fst (concat (map paths
         [Window_setup None None CHR ''a''
            [Window_setup (Some 0) (Some 10) CHR ''a'' [],
             Window_setup (Some 1) (Some 20) CHR ''b'' []],
          Window_setup (Some 2) (Some 30) CHR ''b'' []])))"
proof -
  let ?S = "\<lparr>xcon = initialise_xorg,
       ksl = [\<lparr>character = CHR ''a'', keysym = 0x61\<rparr>, \<lparr>character = CHR ''b'', keysym = 0x62\<rparr>],
       wsetups = []\<rparr>"
  let ?S' = "\<lparr>xcon = \<lparr>next_id = 3, requests = [Create_window 0, Create_window 1, Create_window 2]\<rparr>,
       ksl = [\<lparr>character = CHR ''a'', keysym = 0x61\<rparr>, \<lparr>character = CHR ''b'', keysym = 0x62\<rparr>],
       wsetups =
         [Window_setup None None CHR ''a''
            [Window_setup (Some 0) (Some 10) CHR ''a'' [],
             Window_setup (Some 1) (Some 20) CHR ''b'' []],
          Window_setup (Some 2) (Some 30) CHR ''b'' []]\<rparr>"
  have h1: "distinct (map character (ksl ?S))" by simp
  have h2: "2 \<le> length (ksl ?S)" by simp
  have h3: "initialise_window_tracking exact_log_quotient ?S [10, 20, 30] = Inr ?S'"
    by code_simp
  from labels_distinct_and_bounded[OF h1 h2, of "[10, 20, 30]", THEN conjunct2, rule_format, OF h3]
  have "distinct (map fst (concat (map paths (wsetups ?S'))))" by (elim conjE)
  with h1 h3 show ?thesis by simp
qed

text \<open>
  The bound of C1 as the claim states it fails for three windows and two characters:
  the specification's bound is 1, and the first window is chosen by typing \<open>aa\<close>.
\<close>

theorem labels_bound_counterexample:
  "map_sum id (\<lambda>s. concat (map paths (wsetups s)))
     (initialise_window_tracking exact_log_quotient
        \<lparr>xcon = initialise_xorg,
         ksl = [\<lparr>character = CHR ''a'', keysym = 0x61\<rparr>, \<lparr>character = CHR ''b'', keysym = 0x62\<rparr>],
         wsetups = []\<rparr> [1, 2, 3])
     = Inr [(''aa'', 1), (''ab'', 2), (''b'', 3)]
   \<and> spec_depth 2 3 = 1
   \<and> spec_depth 2 3 < length ''aa''"
proof -
  have "spec_depth 2 3 = 1" by (simp add: spec_depth_def)
  moreover have "map_sum id (\<lambda>s. concat (map paths (wsetups s)))
     (initialise_window_tracking exact_log_quotient
        \<lparr>xcon = initialise_xorg,
         ksl = [\<lparr>character = CHR ''a'', keysym = 0x61\<rparr>, \<lparr>character = CHR ''b'', keysym = 0x62\<rparr>],
         wsetups = []\<rparr> [1, 2, 3])
     = Inr [(''aa'', 1), (''ab'', 2), (''b'', 3)]"
    by code_simp
  ultimately show ?thesis by simp
qed

section \<open>One level of the structure\<close>

text \<open>
  C5. The property holds of every call of \<^verbatim>\<open>_initialise_window_tracking\<close> with
  \<open>N \<le> K ^ (remain_depth + 1)\<close> (lemma \<open>partition_of_every_level\<close>). The branch
  \<^verbatim>\<open>remain_depth == 0\<close> does not partition: it makes one bottom-level structure for each
  window and reads \<^verbatim>\<open>ksl[i]\<close> for the \<open>i\<close>-th. For 244 windows and the characters \<open>abc\<close>
  the depth computed in double precision is 4; the first groups of the levels have 82,
  28, 10 and 4 windows, so the last level receives \<open>N = 4\<close> windows for \<open>K = 3\<close>
  characters. The property asks for \<open>min 4 3 = 3\<close> groups of 2, 1 and 1 windows, the first
  one built by a further call, which is what the function builds for these four windows
  when \<^verbatim>\<open>remain_depth\<close> is 1; with \<^verbatim>\<open>remain_depth\<close> 0 it reads \<^verbatim>\<open>ksl[3]\<close>, past the
  key list, and so do the calls above it.
\<close>

theorem base_level_past_key_list:
  "map (group_size (244 div 3) (244 mod 3)) [0..<3] = [82, 81, 81]
   \<and> map (group_size (82 div 3) (82 mod 3)) [0..<3] = [28, 27, 27]
   \<and> map (group_size (28 div 3) (28 mod 3)) [0..<3] = [10, 9, 9]
   \<and> map (group_size (10 div 3) (10 mod 3)) [0..<3] = [4, 3, 3]
   \<and> min (length [1, 2, 3, 4::nat]) 3 = 3
   \<and> map (group_size (4 div 3) (4 mod 3)) [0..<3] = [2, 1, 1]
   \<and> initialise_window_tracking'
        [\<lparr>character = CHR ''a'', keysym = 0x61\<rparr>, \<lparr>character = CHR ''b'', keysym = 0x62\<rparr>,
         \<lparr>character = CHR ''c'', keysym = 0x63\<rparr>] 1 [1, 2, 3, 4] initialise_xorg
      = Inr ([Window_setup None None CHR ''a''
                [Window_setup (Some 0) (Some 1) CHR ''a'' [],
                 Window_setup (Some 1) (Some 2) CHR ''b'' []],
              Window_setup (Some 2) (Some 3) CHR ''b'' [],
              Window_setup (Some 3) (Some 4) CHR ''c'' []],
             \<lparr>next_id = 4,
              requests = [Create_window 0, Create_window 1, Create_window 2, Create_window 3]\<rparr>)
   \<and> initialise_window_tracking'
        [\<lparr>character = CHR ''a'', keysym = 0x61\<rparr>, \<lparr>character = CHR ''b'', keysym = 0x62\<rparr>,
         \<lparr>character = CHR ''c'', keysym = 0x63\<rparr>] 0 [1, 2, 3, 4] initialise_xorg
      = Inl Ksl_out_of_bounds
   \<and> initialise_window_tracking'
        [\<lparr>character = CHR ''a'', keysym = 0x61\<rparr>, \<lparr>character = CHR ''b'', keysym = 0x62\<rparr>,
         \<lparr>character = CHR ''c'', keysym = 0x63\<rparr>] 1 [1..<11] initialise_xorg
      = Inl Ksl_out_of_bounds
   \<and> initialise_window_tracking'
        [\<lparr>character = CHR ''a'', keysym = 0x61\<rparr>, \<lparr>character = CHR ''b'', keysym = 0x62\<rparr>,
         \<lparr>character = CHR ''c'', keysym = 0x63\<rparr>] 2 [1..<29] initialise_xorg
      = Inl Ksl_out_of_bounds
   \<and> initialise_window_tracking'
        [\<lparr>character = CHR ''a'', keysym = 0x61\<rparr>, \<lparr>character = CHR ''b'', keysym = 0x62\<rparr>,
         \<lparr>character = CHR ''c'', keysym = 0x63\<rparr>] 3 [1..<83] initialise_xorg
      = Inl Ksl_out_of_bounds
   \<and> initialise_window_tracking'
        [\<lparr>character = CHR ''a'', keysym = 0x61\<rparr>, \<lparr>character = CHR ''b'', keysym = 0x62\<rparr>,
         \<lparr>character = CHR ''c'', keysym = 0x63\<rparr>] 4 [1..<245] initialise_xorg
      = Inl Ksl_out_of_bounds"
  by code_simp

text \<open>
  C10. The property holds when the depth is the exact quotient (lemmas
  \<open>exact_log_quotient_adequate\<close> and \<open>initialise_window_tracking'_total\<close>), and the
  lookup runs past the key list exactly when \<open>N > K ^ (depth + 1)\<close> (lemma
  \<open>initialise_window_tracking'_out_of_bounds\<close>). For 244 windows and the characters
  \<open>abc\<close> the exact quotient \<open>ln 243 / ln 3\<close> is 5, but the quotient of the two
  double-precision logarithms is 4.999999999999999, which the cast truncates to 4. With
  that depth the groups have 82, 28, 10 and then 4 windows, and the branch
  \<^verbatim>\<open>remain_depth == 0\<close> reads \<^verbatim>\<open>ksl[3]\<close> of a key list of three.
\<close>

theorem depth_truncated_out_of_bounds:
  "initialise_window_tracking (\<lambda>a k. 4)
     \<lparr>xcon = initialise_xorg,
      ksl = [\<lparr>character = CHR ''a'', keysym = 0x61\<rparr>, \<lparr>character = CHR ''b'', keysym = 0x62\<rparr>,
             \<lparr>character = CHR ''c'', keysym = 0x63\<rparr>],
      wsetups = []\<rparr> [1..<245]
     = Inl Ksl_out_of_bounds
   \<and> length [1..<245] = 244 \<and> max (244 - 1) 1 = (243::nat) \<and> exact_log_quotient 243 3 = 5"
  by code_simp

section \<open>Narrowing by a key\<close>

text \<open>
  C2, amended. Let \<open>X\<close> be the first structure of the current array whose character is
  the one typed. If \<open>X\<close> is not a choice (it has children), \<^verbatim>\<open>wsetups_descend_by_char\<close>
  returns after it has destroyed the overlays of every other structure of the array
  with all of its descendants, in array order and nothing else, and the array becomes
  the children of \<open>X\<close>, which holds no overlay itself. If \<open>X\<close> is a choice (a tracked
  window and no children), the process exits with that window chosen as soon as the
  loop reaches \<open>X\<close>: only the structures before \<open>X\<close> have been destroyed, the overlay of
  \<open>X\<close> and the structures after it have not.
\<close>

theorem descend_by_char_match:
  assumes "i < length (wsetups state)"
    and "wcharacter (wsetups state ! i) = c"
    and "\<forall>k<i. wcharacter (wsetups state ! k) \<noteq> c"
  shows "(window (wsetups state ! i) \<noteq> None \<and> children (wsetups state ! i) = [] \<longrightarrow>
           wsetups_descend_by_char state c =
             (Exit_match (the (window (wsetups state ! i))),
              state\<lparr>xcon := release (xcon state)
                        (concat (map overlays (take i (wsetups state))))\<rparr>))
       \<and> (\<not> (window (wsetups state ! i) \<noteq> None \<and> children (wsetups state ! i) = []) \<longrightarrow>
           wsetups_descend_by_char state c =
             (Running,
              state\<lparr>wsetups := children (wsetups state ! i),
                    xcon := release (xcon state)
                        (concat (map overlays (take i (wsetups state) @ drop (Suc i) (wsetups state))))\<rparr>))"
  using assms by (rule wsetups_descend_by_char_found)

theorem descend_by_char_match_witness:
  "wsetups_descend_by_char
      \<lparr>xcon = \<lparr>next_id = 3, requests = [Create_window 0, Create_window 1, Create_window 2]\<rparr>,
       ksl = [\<lparr>character = CHR ''a'', keysym = 0x61\<rparr>, \<lparr>character = CHR ''b'', keysym = 0x62\<rparr>],
       wsetups =
         [Window_setup None None CHR ''a''
            [Window_setup (Some 0) (Some 10) CHR ''a'' [],
             Window_setup (Some 1) (Some 20) CHR ''b'' []],
          Window_setup (Some 2) (Some 30) CHR ''b'' []]\<rparr> CHR ''a''
    = (Running,
       \<lparr>xcon = \<lparr>next_id = 3,
                requests = [Create_window 0, Create_window 1, Create_window 2, Destroy_window 2]\<rparr>,
        ksl = [\<lparr>character = CHR ''a'', keysym = 0x61\<rparr>, \<lparr>character = CHR ''b'', keysym = 0x62\<rparr>],
        wsetups = [Window_setup (Some 0) (Some 10) CHR ''a'' [],
                   Window_setup (Some 1) (Some 20) CHR ''b'' []]\<rparr>)
   \<and> wsetups_descend_by_char
      \<lparr>xcon = \<lparr>next_id = 3, requests = [Create_window 0, Create_window 1, Create_window 2]\<rparr>,
       ksl = [\<lparr>character = CHR ''a'', keysym = 0x61\<rparr>, \<lparr>character = CHR ''b'', keysym = 0x62\<rparr>],
       wsetups =
         [Window_setup None None CHR ''a''
            [Window_setup (Some 0) (Some 10) CHR ''a'' [],
             Window_setup (Some 1) (Some 20) CHR ''b'' []],
          Window_setup (Some 2) (Some 30) CHR ''b'' []]\<rparr> CHR ''b''
    = (Exit_match 30,
       \<lparr>xcon = \<lparr>next_id = 3,
                requests = [Create_window 0, Create_window 1, Create_window 2,
                            Destroy_window 0, Destroy_window 1]\<rparr>,
        ksl = [\<lparr>character = CHR ''a'', keysym = 0x61\<rparr>, \<lparr>character = CHR ''b'', keysym = 0x62\<rparr>],
        wsetups =
         [Window_setup None None CHR ''a''
            [Window_setup (Some 0) (Some 10) CHR ''a'' [],
             Window_setup (Some 1) (Some 20) CHR ''b'' []],
          Window_setup (Some 2) (Some 30) CHR ''b'' []]\<rparr>)"
proof -
  let ?S = "\<lparr>xcon = \<lparr>next_id = 3, requests = [Create_window 0, Create_window 1, Create_window 2]\<rparr>,
       ksl = [\<lparr>character = CHR ''a'', keysym = 0x61\<rparr>, \<lparr>character = CHR ''b'', keysym = 0x62\<rparr>],
       wsetups =
         [Window_setup None None CHR ''a''
            [Window_setup (Some 0) (Some 10) CHR ''a'' [],
             Window_setup (Some 1) (Some 20) CHR ''b'' []],
          Window_setup (Some 2) (Some 30) CHR ''b'' []]\<rparr>"
  have a1: "0 < length (wsetups ?S)" and a2: "wcharacter (wsetups ?S ! 0) = CHR ''a''"
    and a3: "\<forall>k<0. wcharacter (wsetups ?S ! k) \<noteq> CHR ''a''" by simp_all
  have b1: "1 < length (wsetups ?S)" and b2: "wcharacter (wsetups ?S ! 1) = CHR ''b''"
    and b3: "\<forall>k<1. wcharacter (wsetups ?S ! k) \<noteq> CHR ''b''" by simp_all
  from descend_by_char_match[OF a1 a2 a3] descend_by_char_match[OF b1 b2 b3]
  show ?thesis by (simp add: release_def)
qed

text \<open>
  C2 as the claim states it fails when the structure chosen is not the last of its
  array: five windows under \<open>abcde\<close> and the key \<open>c\<close> choose the window 3 after the
  overlays 0 and 1 have been destroyed; the overlays 2, 3 and 4 are still there.
\<close>

theorem descend_by_char_match_counterexample:
  "map_sum id (\<lambda>(st, s). (st, destroyed (xcon s), live (xcon s)))
     (main exact_log_quotient ''abcde'' [1, 2, 3, 4, 5] [0x63])
   = Inr (Exit_match 3, [0, 1], [2, 3, 4])"
  by code_simp

text \<open>
  C3, amended. When the character typed is that of no structure of the current array,
  \<^verbatim>\<open>wsetups_descend_by_char\<close> exits the process with no window chosen and changes
  nothing: no overlay is destroyed, so every overlay that was live is still live.
\<close>

theorem descend_by_char_no_match:
  assumes "\<forall>t \<in> set (wsetups state). wcharacter t \<noteq> c"
  shows "wsetups_descend_by_char state c = (Exit_no_match, state)"
  using assms by (simp add: wsetups_descend_by_char_def find_character_None[THEN iffD2])

theorem descend_by_char_no_match_witness:
  "wsetups_descend_by_char
        \<lparr>xcon = \<lparr>next_id = 2, requests = [Create_window 0, Create_window 1]\<rparr>,
         ksl = [\<lparr>character = CHR ''a'', keysym = 0x61\<rparr>, \<lparr>character = CHR ''b'', keysym = 0x62\<rparr>],
         wsetups = [Window_setup (Some 0) (Some 10) CHR ''a'' [],
                    Window_setup (Some 1) (Some 20) CHR ''b'' []]\<rparr> CHR ''c''
      = (Exit_no_match,
         \<lparr>xcon = \<lparr>next_id = 2, requests = [Create_window 0, Create_window 1]\<rparr>,
          ksl = [\<lparr>character = CHR ''a'', keysym = 0x61\<rparr>, \<lparr>character = CHR ''b'', keysym = 0x62\<rparr>],
          wsetups = [Window_setup (Some 0) (Some 10) CHR ''a'' [],
                     Window_setup (Some 1) (Some 20) CHR ''b'' []]\<rparr>)"
proof -
  let ?S = "\<lparr>xcon = \<lparr>next_id = 2, requests = [Create_window 0, Create_window 1]\<rparr>,
         ksl = [\<lparr>character = CHR ''a'', keysym = 0x61\<rparr>, \<lparr>character = CHR ''b'', keysym = 0x62\<rparr>],
         wsetups = [Window_setup (Some 0) (Some 10) CHR ''a'' [],
                    Window_setup (Some 1) (Some 20) CHR ''b'' []]\<rparr>"
  have h: "\<forall>t \<in> set (wsetups ?S). wcharacter t \<noteq> CHR ''c''" by simp
  from descend_by_char_no_match[OF h] show ?thesis .
qed

text \<open>
  C3 as the claim states it fails: three windows under \<open>abcde\<close> and the key \<open>d\<close>, which
  labels none of them, end the process with the three overlays live and none destroyed.
\<close>

theorem descend_by_char_no_match_counterexample:
  "map_sum id (\<lambda>(st, s). (st, destroyed (xcon s), live (xcon s)))
     (main exact_log_quotient ''abcde'' [1, 2, 3] [0x64])
   = Inr (Exit_no_match, [], [0, 1, 2])"
  by code_simp

section \<open>The CHARACTERS argument and the session of one window\<close>

text \<open>
  C7, amended. \<^verbatim>\<open>parse_arg_characters\<close> fails exactly when the argument holds a
  character other than \<open>0-9a-z\<close> or fewer than two different characters. A repeated
  character is no error: the second and later occurrences are skipped, so that the
  lookup built holds the first occurrences of the characters of the argument, in the
  order of the argument (\<open>rev (remdups (rev s))\<close>: \<open>remdups\<close> keeps last occurrences), each
  with its keysym; its characters are pairwise distinct and are those of the argument.
  Two or more pairwise distinct allowed characters are always accepted as they are. A
  failure ends \<^verbatim>\<open>main\<close> before the tracking structure is built.
\<close>

theorem parse_arg_characters_fails_iff:
  "((\<exists>e. parse_arg_characters s = Inl e) \<longleftrightarrow>
      (\<not> set s \<subseteq> set (map character ALL_KEYSYMS_LOOKUP) \<or> card (set s) < 2))
   \<and> (parse_arg_characters s = Inr ks \<longrightarrow>
        ks = map (\<lambda>c. \<lparr>character = c, keysym = of_char c\<rparr>) (rev (remdups (rev s)))
        \<and> distinct (map character ks) \<and> set (map character ks) = set s \<and> 2 \<le> length ks)
   \<and> (set s \<subseteq> set (map character ALL_KEYSYMS_LOOKUP) \<and> distinct s \<and> 2 \<le> length s \<longrightarrow>
        parse_arg_characters s = Inr (map (\<lambda>c. \<lparr>character = c, keysym = of_char c\<rparr>) s))
   \<and> (parse_arg_characters s = Inl e \<longrightarrow> main lq s ws keys = Inl e)"
proof -
  have known: "\<exists>ks. parse_arg_characters_loop s [] = Inr ks
        \<and> distinct (map character ks) \<and> set (map character ks) = set s"
    if "set s \<subseteq> set (map character ALL_KEYSYMS_LOOKUP)"
    using parse_loop_known[OF that, of "[]"] by simp
  have len: "length ks' = card (set s)"
    if "distinct (map character ks')" "set (map character ks') = set s" for ks'
    using that distinct_card[of "map character ks'"] by simp
  have a: "(\<exists>e. parse_arg_characters s = Inl e) \<longleftrightarrow>
      (\<not> set s \<subseteq> set (map character ALL_KEYSYMS_LOOKUP) \<or> card (set s) < 2)"
  proof (cases "set s \<subseteq> set (map character ALL_KEYSYMS_LOOKUP)")
    case True
    from known[OF True] obtain ks' where "parse_arg_characters_loop s [] = Inr ks'"
      "distinct (map character ks')" "set (map character ks') = set s" by blast
    with len[OF this(2,3)] True show ?thesis
      by (simp add: parse_arg_characters_def)
  next
    case False
    from parse_loop_unknown[OF False, of "[]"] False show ?thesis
      by (auto simp: parse_arg_characters_def)
  qed
  have b: "ks = map (\<lambda>c. \<lparr>character = c, keysym = of_char c\<rparr>) (rev (remdups (rev s)))
      \<and> distinct (map character ks) \<and> set (map character ks) = set s \<and> 2 \<le> length ks"
    if p: "parse_arg_characters s = Inr ks"
  proof -
    have "set s \<subseteq> set (map character ALL_KEYSYMS_LOOKUP)"
    proof (rule ccontr)
      assume "\<not> ?thesis"
      from parse_loop_unknown[OF this, of "[]"] p show False
        by (auto simp: parse_arg_characters_def)
    qed
    from known[OF this] p
    have "distinct (map character ks) \<and> set (map character ks) = set s \<and> 2 \<le> length ks"
      by (auto simp: parse_arg_characters_def split: if_splits)
    with parse_arg_characters_first_occurrences[OF p] show ?thesis by blast
  qed
  have c: "parse_arg_characters s = Inr (map (\<lambda>c. \<lparr>character = c, keysym = of_char c\<rparr>) s)"
    if "set s \<subseteq> set (map character ALL_KEYSYMS_LOOKUP)" "distinct s" "2 \<le> length s"
    using parse_loop_distinct[OF that(1,2), of "[]"] that(3)
    by (simp add: parse_arg_characters_def)
  have d: "main lq s ws keys = Inl e" if "parse_arg_characters s = Inl e"
    using that by (simp add: main_def)
  from a b c d show ?thesis by blast
qed

theorem parse_arg_characters_fails_iff_witness:
  "parse_arg_characters ''sdf'' =
     Inr [\<lparr>character = CHR ''s'', keysym = 0x73\<rparr>, \<lparr>character = CHR ''d'', keysym = 0x64\<rparr>,
          \<lparr>character = CHR ''f'', keysym = 0x66\<rparr>]
   \<and> parse_arg_characters ''aba'' =
     Inr [\<lparr>character = CHR ''a'', keysym = 0x61\<rparr>, \<lparr>character = CHR ''b'', keysym = 0x62\<rparr>]
   \<and> main exact_log_quotient ''xx'' [1, 2] [] = Inl Too_few_characters"
proof -
  have h1: "set ''sdf'' \<subseteq> set (map character ALL_KEYSYMS_LOOKUP) \<and> distinct ''sdf'' \<and> 2 \<le> length ''sdf''"
    by (simp add: ALL_KEYSYMS_LOOKUP_def)
  have h2: "parse_arg_characters ''xx'' = Inl Too_few_characters" by code_simp
  have "set ''aba'' = {CHR ''a'', CHR ''b''}" by auto
  then have h3: "\<not> (\<not> set ''aba'' \<subseteq> set (map character ALL_KEYSYMS_LOOKUP) \<or> card (set ''aba'') < 2)"
    by (simp add: ALL_KEYSYMS_LOOKUP_def)
  from parse_arg_characters_fails_iff[of "''sdf''", THEN conjunct2, THEN conjunct2, THEN conjunct1,
      rule_format, OF h1]
  have c1: "parse_arg_characters ''sdf'' = Inr (map (\<lambda>c. \<lparr>character = c, keysym = of_char c\<rparr>) ''sdf'')" .
  from parse_arg_characters_fails_iff[of "''xx''" _ Too_few_characters exact_log_quotient "[1, 2]" "[]",
      THEN conjunct2, THEN conjunct2, THEN conjunct2, rule_format, OF h2]
  have c2: "main exact_log_quotient ''xx'' [1, 2] [] = Inl Too_few_characters" .
  from parse_arg_characters_fails_iff[of "''aba''", THEN conjunct1] h3
  have "\<not> (\<exists>e. parse_arg_characters ''aba'' = Inl e)" by blast
  then obtain ks where k: "parse_arg_characters ''aba'' = Inr ks"
    by (cases "parse_arg_characters ''aba''") auto
  from parse_arg_characters_fails_iff[of "''aba''" ks, THEN conjunct2, THEN conjunct1, rule_format, OF k]
  have "ks = map (\<lambda>c. \<lparr>character = c, keysym = of_char c\<rparr>) (rev (remdups (rev ''aba'')))"
    by (rule conjunct1)
  with k have c3: "parse_arg_characters ''aba'' =
     Inr [\<lparr>character = CHR ''a'', keysym = 0x61\<rparr>, \<lparr>character = CHR ''b'', keysym = 0x62\<rparr>]"
    by simp
  from c1 c2 c3 show ?thesis by simp
qed

text \<open>
  C7 as the claim states it fails: an argument with a repeated character is accepted,
  and two distinct characters outside \<open>0-9a-z\<close> are refused.
\<close>

theorem parse_arg_characters_counterexample:
  "parse_arg_characters ''aab'' =
     Inr [\<lparr>character = CHR ''a'', keysym = 0x61\<rparr>, \<lparr>character = CHR ''b'', keysym = 0x62\<rparr>]
   \<and> \<not> distinct ''aab''
   \<and> parse_arg_characters ''AB'' = Inl (Unknown_character CHR ''A'')
   \<and> distinct ''AB'' \<and> 2 \<le> length ''AB''"
  by code_simp

text \<open>
  C8, amended. With a single tracked window and accepted characters, \<^verbatim>\<open>main\<close> chooses
  that window at once, whatever the depth computed and without reading any key; the one
  overlay window of the bottom-level structure has been created before, and it is not
  destroyed.
\<close>

theorem single_window_session:
  assumes "parse_arg_characters char_pool = Inr ks"
  shows "main lq char_pool [w] keys =
     Inr (Exit_match w,
          \<lparr>xcon = \<lparr>next_id = 1, requests = [Create_window 0]\<rparr>,
           ksl = ks,
           wsetups = [Window_setup (Some 0) (Some w) (character (ks ! 0)) []]\<rparr>)"
proof -
  have "2 \<le> length ks" using assms by (rule parse_arg_characters_length)
  then show ?thesis
    using assms
    by (simp add: main_def initialise_window_tracking_def initialise_window_tracking'_single
        start_def wsetup_choose_def advance_def initialise_xorg_def)
qed


theorem single_window_session_witness:
  "parse_arg_characters ''ab'' =
     Inr [\<lparr>character = CHR ''a'', keysym = 0x61\<rparr>, \<lparr>character = CHR ''b'', keysym = 0x62\<rparr>]
   \<and> main exact_log_quotient ''ab'' [7] [0x61] =
     Inr (Exit_match 7,
          \<lparr>xcon = \<lparr>next_id = 1, requests = [Create_window 0]\<rparr>,
           ksl = [\<lparr>character = CHR ''a'', keysym = 0x61\<rparr>, \<lparr>character = CHR ''b'', keysym = 0x62\<rparr>],
           wsetups = [Window_setup (Some 0) (Some 7) CHR ''a'' []]\<rparr>)"
proof -
  have h: "parse_arg_characters ''ab'' =
     Inr [\<lparr>character = CHR ''a'', keysym = 0x61\<rparr>, \<lparr>character = CHR ''b'', keysym = 0x62\<rparr>]"
    by code_simp
  from single_window_session[OF h, of exact_log_quotient 7 "[0x61]"] h
  show ?thesis by simp
qed

text \<open>
  C8 as the claim states it fails: the session of one window has created one overlay
  window when it ends.
\<close>

theorem single_window_session_counterexample:
  "map_sum id (\<lambda>(st, s). (st, created (xcon s), destroyed (xcon s)))
     (main exact_log_quotient ''ab'' [7] [])
   = Inr (Exit_match 7, [0], [])"
  by code_simp

section \<open>The overlay windows that are live\<close>

text \<open>
  C4, amended. For at least one tracked window, in a session in which \<^verbatim>\<open>main\<close> builds
  the structure (it always does when the characters are accepted and the quotient of
  the logarithms is exact): whenever the program waits for a key, before the first key
  and after each key handled, the overlay windows that are live (created and not
  destroyed) are exactly, and once each, those of the bottom-level structures in the
  current array or below it; a structure with children holds no overlay, also while it
  is in the current array, and a bottom-level structure holds one from the build on,
  also while it is below the current array. When the process has exited, every window
  destroyed had been created and none was destroyed twice, and fewer windows have been
  destroyed than created. Nothing is stated of the points inside the handling of a key.
\<close>

theorem live_overlays_invariant:
  assumes "ws \<noteq> []"
  shows "(\<forall>ks. parse_arg_characters char_pool = Inr ks \<longrightarrow>
            (\<exists>st s. main exact_log_quotient char_pool ws keys = Inr (st, s)))
       \<and> (\<forall>lq st s. main lq char_pool ws keys = Inr (st, s) \<longrightarrow>
            (st = Running \<longrightarrow>
               resource_inv s \<and> set (live (xcon s)) = set (concat (map overlays (wsetups s))))
            \<and> (st \<noteq> Running \<longrightarrow> exited_inv s))"
proof (rule conjI)
  show "\<forall>ks. parse_arg_characters char_pool = Inr ks \<longrightarrow>
            (\<exists>st s. main exact_log_quotient char_pool ws keys = Inr (st, s))"
    using main_exact_total by blast
next
  show "\<forall>lq st s. main lq char_pool ws keys = Inr (st, s) \<longrightarrow>
            (st = Running \<longrightarrow>
               resource_inv s \<and> set (live (xcon s)) = set (concat (map overlays (wsetups s))))
            \<and> (st \<noteq> Running \<longrightarrow> exited_inv s)"
  proof (intro allI impI)
  fix lq st s
  assume m: "main lq char_pool ws keys = Inr (st, s)"
  from m obtain ks s0 where
    "initialise_window_tracking lq \<lparr>xcon = initialise_xorg, ksl = ks, wsetups = []\<rparr> ws = Inr s0"
    and run: "event_loop (start s0) keys = (st, s)"
    by (auto simp: main_def split: sum.splits)
  from resource_inv_init[OF this(1) assms] have "resource_inv s0" .
  obtain st0 s0' where st: "start s0 = (st0, s0')" by (cases "start s0")
  from resource_inv_start[OF \<open>resource_inv s0\<close> st]
  have "(st0 = Running \<longrightarrow> resource_inv s0') \<and> (st0 \<noteq> Running \<longrightarrow> exited_inv s0')" .
  from resource_inv_event_loop[OF this run[unfolded st]]
  have r: "(st = Running \<longrightarrow> resource_inv s) \<and> (st \<noteq> Running \<longrightarrow> exited_inv s)" .
  have e: "set (live (xcon s)) = set (concat (map overlays (wsetups s)))" if "resource_inv s"
    using that by (simp add: set_live resource_inv_def)
  from r e show "(st = Running \<longrightarrow>
               resource_inv s \<and> set (live (xcon s)) = set (concat (map overlays (wsetups s))))
            \<and> (st \<noteq> Running \<longrightarrow> exited_inv s)"
    by blast
  qed
qed

theorem live_overlays_invariant_witness:
  "(\<exists>st s. main exact_log_quotient ''abc'' [1, 2, 3, 4, 5, 6, 7] [0x63, 0x63] = Inr (st, s))
   \<and> main exact_log_quotient ''abc'' [1, 2, 3, 4, 5, 6, 7] [0x61] =
     Inr (Running,
       \<lparr>xcon = \<lparr>next_id = 7,
                 requests = [Create_window 0, Create_window 1, Create_window 2, Create_window 3,
                             Create_window 4, Create_window 5, Create_window 6,
                             Destroy_window 3, Destroy_window 4, Destroy_window 5,
                             Destroy_window 6]\<rparr>,
        ksl = [\<lparr>character = CHR ''a'', keysym = 0x61\<rparr>, \<lparr>character = CHR ''b'', keysym = 0x62\<rparr>,
               \<lparr>character = CHR ''c'', keysym = 0x63\<rparr>],
        wsetups = [Window_setup (Some 0) (Some 1) CHR ''a'' [],
                   Window_setup (Some 1) (Some 2) CHR ''b'' [],
                   Window_setup (Some 2) (Some 3) CHR ''c'' []]\<rparr>)
   \<and> set (live (xcon
       \<lparr>xcon = \<lparr>next_id = 7,
                 requests = [Create_window 0, Create_window 1, Create_window 2, Create_window 3,
                             Create_window 4, Create_window 5, Create_window 6,
                             Destroy_window 3, Destroy_window 4, Destroy_window 5,
                             Destroy_window 6]\<rparr>,
        ksl = [\<lparr>character = CHR ''a'', keysym = 0x61\<rparr>, \<lparr>character = CHR ''b'', keysym = 0x62\<rparr>,
               \<lparr>character = CHR ''c'', keysym = 0x63\<rparr>],
        wsetups = [Window_setup (Some 0) (Some 1) CHR ''a'' [],
                   Window_setup (Some 1) (Some 2) CHR ''b'' [],
                   Window_setup (Some 2) (Some 3) CHR ''c'' []]\<rparr>)) = {0, 1, 2}
   \<and> main exact_log_quotient ''abc'' [1, 2, 3, 4, 5, 6, 7] [0x61, 0x62] =
     Inr (Exit_match 2,
       \<lparr>xcon = \<lparr>next_id = 7,
                 requests = [Create_window 0, Create_window 1, Create_window 2, Create_window 3,
                             Create_window 4, Create_window 5, Create_window 6,
                             Destroy_window 3, Destroy_window 4, Destroy_window 5,
                             Destroy_window 6, Destroy_window 0]\<rparr>,
        ksl = [\<lparr>character = CHR ''a'', keysym = 0x61\<rparr>, \<lparr>character = CHR ''b'', keysym = 0x62\<rparr>,
               \<lparr>character = CHR ''c'', keysym = 0x63\<rparr>],
        wsetups = [Window_setup (Some 0) (Some 1) CHR ''a'' [],
                   Window_setup (Some 1) (Some 2) CHR ''b'' [],
                   Window_setup (Some 2) (Some 3) CHR ''c'' []]\<rparr>)
   \<and> length (destroyed (xcon
       \<lparr>xcon = \<lparr>next_id = 7,
                 requests = [Create_window 0, Create_window 1, Create_window 2, Create_window 3,
                             Create_window 4, Create_window 5, Create_window 6,
                             Destroy_window 3, Destroy_window 4, Destroy_window 5,
                             Destroy_window 6, Destroy_window 0]\<rparr>,
        ksl = [\<lparr>character = CHR ''a'', keysym = 0x61\<rparr>, \<lparr>character = CHR ''b'', keysym = 0x62\<rparr>,
               \<lparr>character = CHR ''c'', keysym = 0x63\<rparr>],
        wsetups = [Window_setup (Some 0) (Some 1) CHR ''a'' [],
                   Window_setup (Some 1) (Some 2) CHR ''b'' [],
                   Window_setup (Some 2) (Some 3) CHR ''c'' []]\<rparr>)) < 7"
proof -
  let ?S1 = "\<lparr>xcon = \<lparr>next_id = 7,
                 requests = [Create_window 0, Create_window 1, Create_window 2, Create_window 3,
                             Create_window 4, Create_window 5, Create_window 6,
                             Destroy_window 3, Destroy_window 4, Destroy_window 5,
                             Destroy_window 6]\<rparr>,
        ksl = [\<lparr>character = CHR ''a'', keysym = 0x61\<rparr>, \<lparr>character = CHR ''b'', keysym = 0x62\<rparr>,
               \<lparr>character = CHR ''c'', keysym = 0x63\<rparr>],
        wsetups = [Window_setup (Some 0) (Some 1) CHR ''a'' [],
                   Window_setup (Some 1) (Some 2) CHR ''b'' [],
                   Window_setup (Some 2) (Some 3) CHR ''c'' []]\<rparr>"
  let ?S2 = "\<lparr>xcon = \<lparr>next_id = 7,
                 requests = [Create_window 0, Create_window 1, Create_window 2, Create_window 3,
                             Create_window 4, Create_window 5, Create_window 6,
                             Destroy_window 3, Destroy_window 4, Destroy_window 5,
                             Destroy_window 6, Destroy_window 0]\<rparr>,
        ksl = [\<lparr>character = CHR ''a'', keysym = 0x61\<rparr>, \<lparr>character = CHR ''b'', keysym = 0x62\<rparr>,
               \<lparr>character = CHR ''c'', keysym = 0x63\<rparr>],
        wsetups = [Window_setup (Some 0) (Some 1) CHR ''a'' [],
                   Window_setup (Some 1) (Some 2) CHR ''b'' [],
                   Window_setup (Some 2) (Some 3) CHR ''c'' []]\<rparr>"
  have ne: "[1, 2, 3, 4, 5, 6, 7::nat] \<noteq> []" by simp
  have h0: "parse_arg_characters ''abc'' =
      Inr [\<lparr>character = CHR ''a'', keysym = 0x61\<rparr>, \<lparr>character = CHR ''b'', keysym = 0x62\<rparr>,
           \<lparr>character = CHR ''c'', keysym = 0x63\<rparr>]"
    by code_simp
  from live_overlays_invariant[OF ne, of "''abc''" "[0x63, 0x63]", THEN conjunct1, rule_format, OF h0]
  have c0: "\<exists>st s. main exact_log_quotient ''abc'' [1, 2, 3, 4, 5, 6, 7] [0x63, 0x63] = Inr (st, s)" .
  have h1: "main exact_log_quotient ''abc'' [1, 2, 3, 4, 5, 6, 7] [0x61] = Inr (Running, ?S1)"
    by code_simp
  have h2: "main exact_log_quotient ''abc'' [1, 2, 3, 4, 5, 6, 7] [0x61, 0x62] = Inr (Exit_match 2, ?S2)"
    by code_simp
  from live_overlays_invariant[OF ne, of "''abc''" "[0x61]", THEN conjunct2, rule_format, OF h1]
  have "set (live (xcon ?S1)) = set (concat (map overlays (wsetups ?S1)))" by blast
  then have c1: "set (live (xcon ?S1)) = {0, 1, 2}" by simp
  from live_overlays_invariant[OF ne, of "''abc''" "[0x61, 0x62]", THEN conjunct2, rule_format, OF h2]
  have "exited_inv ?S2" by blast
  then have "length (destroyed (xcon ?S2)) < length (created (xcon ?S2))"
    by (simp only: exited_inv_def)
  moreover have "length (created (xcon ?S2)) = 7" by (simp add: created_def)
  ultimately have c2: "length (destroyed (xcon ?S2)) < 7" by simp
  from c0 h1 c1 h2 c2 show ?thesis by blast
qed

text \<open>
  C4 as the claim states it fails on the example of seven windows under \<open>abc\<close>: in the
  first state that waits for a key the three structures of the current array hold no
  overlay while seven overlays are live, one for each bottom-level structure below
  them; after the keys \<open>a\<close> and \<open>b\<close> the process has exited with seven windows
  created and five destroyed; and inside the handling of the key \<open>a\<close>, when
  \<^verbatim>\<open>wsetup_choose\<close> has replaced the current array by the children of the first
  structure and the loop of \<^verbatim>\<open>wsetups_descend_by_index\<close> has not yet freed the other two,
  the structures of the current array and below hold the overlays 0, 1, 2 while all seven
  are live.
\<close>

theorem live_overlays_counterexample:
  "map_sum id (\<lambda>(st, s). (st, map overlay_window (wsetups s), live (xcon s)))
     (main exact_log_quotient ''abc'' [1, 2, 3, 4, 5, 6, 7] [])
   = Inr (Running, [None, None, None], [0, 1, 2, 3, 4, 5, 6])
   \<and> map_sum id (\<lambda>(st, s). (st, length (created (xcon s)), length (destroyed (xcon s))))
     (main exact_log_quotient ''abc'' [1, 2, 3, 4, 5, 6, 7] [0x61, 0x62])
   = Inr (Exit_match 2, 7, 5)
   \<and> map_sum id (\<lambda>(st, s). case wsetup_choose s (wsetups s ! 0) of
         (st', s') \<Rightarrow> (st', concat (map overlays (wsetups s')), live (xcon s')))
     (main exact_log_quotient ''abc'' [1, 2, 3, 4, 5, 6, 7] [])
   = Inr (Running, [0, 1, 2], [0, 1, 2, 3, 4, 5, 6])"
  by code_simp

section \<open>The example of the uneven split\<close>

text \<open>
  C9. Seven windows \<open>1, \<dots>, 7\<close> and the characters \<open>abc\<close>: the depth is the quotient
  \<open>ln 6 / ln 3\<close>, about 1.63, truncated to 1. The top level has the three characters
  \<open>a\<close>, \<open>b\<close>, \<open>c\<close> over groups of 3, 2 and 2 windows (\<open>p = 2\<close>, \<open>r = 1\<close>); the group
  under \<open>a\<close> holds the windows 1, 2, 3 as three bottom-level structures labelled with
  the same characters \<open>a\<close>, \<open>b\<close>, \<open>c\<close>; and the keys \<open>a\<close> then \<open>b\<close> choose the window 2.
\<close>

theorem uneven_split_example:
  "main exact_log_quotient ''abc'' [1, 2, 3, 4, 5, 6, 7] [] =
     Inr (Running,
       \<lparr>xcon = \<lparr>next_id = 7, requests = map Create_window [0, 1, 2, 3, 4, 5, 6]\<rparr>,
        ksl = [\<lparr>character = CHR ''a'', keysym = 0x61\<rparr>,
               \<lparr>character = CHR ''b'', keysym = 0x62\<rparr>,
               \<lparr>character = CHR ''c'', keysym = 0x63\<rparr>],
        wsetups =
          [Window_setup None None CHR ''a''
            [Window_setup (Some 0) (Some 1) CHR ''a'' [],
             Window_setup (Some 1) (Some 2) CHR ''b'' [],
             Window_setup (Some 2) (Some 3) CHR ''c'' []],
           Window_setup None None CHR ''b''
            [Window_setup (Some 3) (Some 4) CHR ''a'' [],
             Window_setup (Some 4) (Some 5) CHR ''b'' []],
           Window_setup None None CHR ''c''
            [Window_setup (Some 5) (Some 6) CHR ''a'' [],
             Window_setup (Some 6) (Some 7) CHR ''b'' []]]\<rparr>)
   \<and> (7::nat) div 3 = 2 \<and> (7::nat) mod 3 = 1
   \<and> exact_log_quotient (max (7 - 1) 1) 3 = 1
   \<and> map_sum id fst (main exact_log_quotient ''abc'' [1, 2, 3, 4, 5, 6, 7] [0x61, 0x62])
       = Inr (Exit_match 2)"
  by code_simp

end
